theory Spec2Isabelle
  imports Complex_Main "HOL-Library.Log_Nat"
begin

section \<open>JavaScript arrays of booleans\<close>

text \<open>
  A mask is a JavaScript array of booleans, indexed by \<open>y * width + x\<close>.  Reading an
  index that is not there gives \<open>undefined\<close>, which every test of the program treats
  as false; writing past the end extends the array, and the holes this leaves read as
  \<open>undefined\<close> again.  The masks are only ever tested for truthiness, so a hole is
  modelled as \<open>False\<close>.
\<close>

definition js_get :: "bool list \<Rightarrow> nat \<Rightarrow> bool" where
  "js_get xs i = (i < length xs \<and> xs ! i)"

definition js_set :: "bool list \<Rightarrow> nat \<Rightarrow> bool \<Rightarrow> bool list" where
  "js_set xs i v =
     (if i < length xs then xs[i := v]
      else xs @ replicate (i - length xs) False @ [v])"

text \<open>A read at an index computed in JavaScript numbers: a negative index is not there.\<close>

definition js_get_int :: "bool list \<Rightarrow> int \<Rightarrow> bool" where
  "js_get_int xs i = (0 \<le> i \<and> js_get xs (nat i))"

section \<open>Morphological Refiner: \<open>erode\<close> and \<open>dilate\<close>\<close>

text \<open>
  Both functions read the array \<open>mask\<close> and write the array \<open>result\<close>, which they
  allocate themselves.  The state of the two loops holds both arrays, so that what
  happens to the input is part of the model.
\<close>

record morph_state =
  input_mask :: "bool list"
  result :: "bool list"

definition offsets3 :: "int list" where
  "offsets3 = [-1, 0, 1]"

text \<open>
  The two inner loops of \<open>erode\<close> over \<open>dy\<close> and \<open>dx\<close>: \<open>allBackground\<close> stays true
  iff no cell of the 3x3 window reads falsy (the \<open>break\<close>s only stop early).
\<close>

definition erode_window :: "bool list \<Rightarrow> nat \<Rightarrow> nat \<Rightarrow> nat \<Rightarrow> bool" where
  "erode_window msk width x y =
     list_all (\<lambda>dy. list_all (\<lambda>dx.
         js_get_int msk ((int y + dy) * int width + (int x + dx))) offsets3) offsets3"

definition dilate_window :: "bool list \<Rightarrow> nat \<Rightarrow> nat \<Rightarrow> nat \<Rightarrow> bool" where
  "dilate_window msk width x y =
     list_ex (\<lambda>dy. list_ex (\<lambda>dx.
         js_get_int msk ((int y + dy) * int width + (int x + dx))) offsets3) offsets3"

definition erode_body :: "nat \<Rightarrow> morph_state \<Rightarrow> nat \<Rightarrow> nat \<Rightarrow> morph_state" where
  "erode_body width st y x =
     st\<lparr>result := js_set (result st) (y * width + x)
                      (erode_window (input_mask st) width x y)\<rparr>"

definition dilate_body :: "nat \<Rightarrow> morph_state \<Rightarrow> nat \<Rightarrow> nat \<Rightarrow> morph_state" where
  "dilate_body width st y x =
     st\<lparr>result := js_set (result st) (y * width + x)
                      (dilate_window (input_mask st) width x y)\<rparr>"

text \<open>
  \<open>for (let y = 1; y < height - 1; y++) for (let x = 1; x < width - 1; x++)\<close>.
  For \<open>height = 0\<close> the bound is \<open>-1\<close> in the source and \<open>0\<close> here: no iteration
  either way.
\<close>

definition interior_loop ::
  "(morph_state \<Rightarrow> nat \<Rightarrow> nat \<Rightarrow> morph_state) \<Rightarrow> nat \<Rightarrow> nat \<Rightarrow> morph_state \<Rightarrow> morph_state" where
  "interior_loop body width height st0 =
     foldl (\<lambda>st y. foldl (\<lambda>st x. body st y x) st [1..<width - 1]) st0 [1..<height - 1]"

definition erode_run :: "bool list \<Rightarrow> nat \<Rightarrow> nat \<Rightarrow> morph_state" where
  "erode_run msk width height =
     interior_loop (erode_body width) width height
       \<lparr>input_mask = msk, result = replicate (length msk) False\<rparr>"

definition erode :: "bool list \<Rightarrow> nat \<Rightarrow> nat \<Rightarrow> bool list" where
  "erode msk width height = result (erode_run msk width height)"

definition dilate_run :: "bool list \<Rightarrow> nat \<Rightarrow> nat \<Rightarrow> morph_state" where
  "dilate_run msk width height =
     interior_loop (dilate_body width) width height
       \<lparr>input_mask = msk, result = msk\<rparr>"

definition dilate :: "bool list \<Rightarrow> nat \<Rightarrow> nat \<Rightarrow> bool list" where
  "dilate msk width height = result (dilate_run msk width height)"

text \<open>The pixels of the 1-pixel image border, and the number of true pixels of a mask.\<close>

definition on_border :: "nat \<Rightarrow> nat \<Rightarrow> nat \<Rightarrow> nat \<Rightarrow> bool" where
  "on_border width height x y =
     (x < width \<and> y < height \<and> (x = 0 \<or> x + 1 = width \<or> y = 0 \<or> y + 1 = height))"

definition count_true :: "bool list \<Rightarrow> nat" where
  "count_true msk = length (filter (\<lambda>b. b) msk)"

text \<open>
  \<open>inside d\<close>: the pixel \<open>(x, y)\<close> is at least \<open>d\<close> pixels away from every image
  edge; \<open>count_inside d\<close> counts the true pixels of a mask that are.
\<close>

definition inside :: "nat \<Rightarrow> nat \<Rightarrow> nat \<Rightarrow> nat \<Rightarrow> nat \<Rightarrow> bool" where
  "inside d width height x y = (d \<le> x \<and> x + d < width \<and> d \<le> y \<and> y + d < height)"

definition count_inside :: "nat \<Rightarrow> bool list \<Rightarrow> nat \<Rightarrow> nat \<Rightarrow> nat" where
  "count_inside d msk width height =
     length (filter (\<lambda>i. js_get msk i \<and> inside d width height (i mod width) (i div width))
               [0..<width * height])"

section \<open>JavaScript numbers\<close>

text \<open>
  A JavaScript number is an IEEE 754 double, and every arithmetic operation returns the
  double nearest to the exact result, ties going to the even significand.  \<open>fl v\<close> is
  that double for a real \<open>v\<close>: with \<open>exponent v\<close> the binary exponent of \<open>v\<close>
  (\<open>2 powi exponent v \<le> \<bar>v\<bar> < 2 powi (exponent v + 1)\<close>) and \<open>ulp v\<close> the
  spacing of the doubles around \<open>v\<close> (a significand of 53 bits, exponents from -1022, so
  that the subnormal numbers are covered), \<open>fl v\<close> is the multiple of \<open>ulp v\<close> nearest
  to \<open>v\<close>.  The program never comes near the largest double, and overflow is not
  modelled.  A quotient \<open>a / b\<close> of the program is \<open>fl (a / b)\<close>, a decimal constant
  such as \<open>0.1\<close> is \<open>fl 0.1\<close>, and \<open>Math.sqrt(a)\<close> is \<open>fl (sqrt a)\<close>.  Sums,
  differences and products of integers are exact, and the row \<open>Math.floor(i / width)\<close>
  of a pixel index is \<open>i div width\<close> (\<open>floor_fl_div\<close> below).
\<close>

definition exponent :: "real \<Rightarrow> int" where
  "exponent v =
     (if 1 \<le> \<bar>v\<bar> then int (floorlog 2 (nat \<lfloor>\<bar>v\<bar>\<rfloor>)) - 1
      else - int (floorlog 2 (nat (\<lceil>1 / \<bar>v\<bar>\<rceil> - 1))))"

definition round_even :: "real \<Rightarrow> int" where
  "round_even v =
     (let n = \<lfloor>v\<rfloor>; r = v - of_int n in
      if r < 1 / 2 then n else if 1 / 2 < r then n + 1 else if even n then n else n + 1)"

definition ulp :: "real \<Rightarrow> real" where
  "ulp v = 2 powi (max (exponent v) (- 1022) - 52)"

definition fl :: "real \<Rightarrow> real" where
  "fl v = (if v = 0 then 0 else of_int (round_even (v / ulp v)) * ulp v)"

text \<open>
  \<open>Math.round\<close> returns the nearest integer, halves going up, and \<open>%\<close> the remainder
  of the truncated quotient; both are exact on doubles.
\<close>

definition js_round :: "real \<Rightarrow> int" where
  "js_round v = \<lfloor>v + 1 / 2\<rfloor>"

definition js_rem :: "real \<Rightarrow> real \<Rightarrow> real" where
  "js_rem u n = u - n * real_of_int (if u / n < 0 then \<lceil>u / n\<rceil> else \<lfloor>u / n\<rfloor>)"

section \<open>Pixel buffers and colours\<close>

text \<open>
  The pixel buffer is \<open>ImageData.data\<close>: bytes in the order R, G, B, A, pixel
  \<open>(x, y)\<close> at byte \<open>(y * width + x) * 4\<close>.  A read outside the buffer gives
  \<open>undefined\<close>.  The length of an \<open>ImageData\<close> buffer is \<open>4 * width * height\<close>, so
  the four bytes of a pixel are all there or all missing, and \<open>getPixelColor\<close> reads a
  pixel as a whole: \<open>None\<close> stands for the object whose fields are \<open>undefined\<close>.  For
  \<open>getPixelBrightness\<close>, \<open>None\<close> stands for \<open>NaN\<close>, the sum with a missing byte.
  Bytes are natural numbers; the program stores only values between 0 and 255.

  The byte sums, the channel differences, the counters and their products are integers
  far below \<open>2 ^ 53\<close>, which doubles hold exactly; every other result (a quotient,
  a product with a decimal constant, a sum of such numbers, a square root) is rounded
  with \<open>fl\<close>, in the order in which the program computes it.
\<close>

definition byte_at :: "nat list \<Rightarrow> int \<Rightarrow> nat option" where
  "byte_at data i = (if 0 \<le> i \<and> nat i < length data then Some (data ! nat i) else None)"

record color =
  red :: int
  green :: int
  blue :: int
  alpha :: int

definition pixel_at :: "nat list \<Rightarrow> int \<Rightarrow> color option" where
  "pixel_at data i =
     (let index = i * 4 in
      case (byte_at data index, byte_at data (index + 1),
            byte_at data (index + 2), byte_at data (index + 3)) of
        (Some r, Some g, Some b, Some a) \<Rightarrow>
          Some \<lparr>red = int r, green = int g, blue = int b, alpha = int a\<rparr>
      | _ \<Rightarrow> None)"

definition getPixelColor :: "nat list \<Rightarrow> int \<Rightarrow> int \<Rightarrow> nat \<Rightarrow> color option" where
  "getPixelColor data x y width = pixel_at data (y * int width + x)"

definition getPixelBrightness :: "nat list \<Rightarrow> int \<Rightarrow> int \<Rightarrow> nat \<Rightarrow> real option" where
  "getPixelBrightness data x y width =
     (let idx = (y * int width + x) * 4 in
      case (byte_at data idx, byte_at data (idx + 1), byte_at data (idx + 2)) of
        (Some r, Some g, Some b) \<Rightarrow> Some (fl (real_of_int (int r + int g + int b) / 3))
      | _ \<Rightarrow> None)"

definition perceptualColorDistance :: "color \<Rightarrow> color \<Rightarrow> real" where
  "perceptualColorDistance color1 color2 =
     (let rDiff = real_of_int (red color1 - red color2);
          gDiff = real_of_int (green color1 - green color2);
          bDiff = real_of_int (blue color1 - blue color2)
      in fl (sqrt (fl (fl (fl (fl (fl 0.299 * rDiff) * rDiff) + fl (fl (fl 0.587 * gDiff) * gDiff))
                       + fl (fl (fl 0.114 * bDiff) * bDiff)))))"

definition in_image :: "nat \<Rightarrow> nat \<Rightarrow> int \<Rightarrow> int \<Rightarrow> bool" where
  "in_image width height nx ny = (0 \<le> nx \<and> nx < int width \<and> 0 \<le> ny \<and> ny < int height)"

text \<open>
  The cells \<open>(nx, ny)\<close> that the loops
  \<open>for (dy = -k; dy <= k; dy++) for (dx = -k; dx <= k; dx++)\<close> reach after skipping the
  centre and the cells outside the image, in the order of the loops.
\<close>

definition window_cells :: "int \<Rightarrow> nat \<Rightarrow> nat \<Rightarrow> nat \<Rightarrow> nat \<Rightarrow> (int \<times> int) list" where
  "window_cells k width height x y =
     concat (map (\<lambda>dy. concat (map (\<lambda>dx.
         if dx = 0 \<and> dy = 0 then []
         else if in_image width height (int x + dx) (int y + dy) then [(int x + dx, int y + dy)]
         else []) [- k..k])) [- k..k])"

section \<open>Edge Color Sampler\<close>

definition samplesPerEdge :: nat where
  "samplesPerEdge = 80"

definition edgeDepth :: "nat \<Rightarrow> nat \<Rightarrow> nat" where
  "edgeDepth width height = max 5 (nat \<lfloor>fl (real (min width height) * fl 0.03)\<rfloor>)"

definition sample_pos :: "nat \<Rightarrow> nat \<Rightarrow> int" where
  "sample_pos extent i = \<lfloor>fl (real extent * fl (real i / real (samplesPerEdge - 1)))\<rfloor>"

definition sample_band ::
  "nat \<Rightarrow> (nat \<Rightarrow> nat \<Rightarrow> color option) \<Rightarrow> color option list" where
  "sample_band depth pick =
     concat (map (\<lambda>i. map (\<lambda>d. pick i d) [0..<depth]) [0..<samplesPerEdge])"

definition sampleEdgesOnly :: "nat list \<Rightarrow> nat \<Rightarrow> nat \<Rightarrow> color option list" where
  "sampleEdgesOnly data width height =
     (let depth = edgeDepth width height in
        sample_band depth (\<lambda>i d. getPixelColor data (sample_pos width i) (int d) width)
      @ sample_band depth (\<lambda>i d. getPixelColor data (sample_pos width i) (int height - 1 - int d) width)
      @ sample_band depth (\<lambda>i d. getPixelColor data (int d) (sample_pos height i) width)
      @ sample_band depth (\<lambda>i d. getPixelColor data (int width - 1 - int d) (sample_pos height i) width))"

section \<open>Dominant Color Clusterer\<close>

record color_group =
  representative :: color
  colors :: "color list"
  count :: nat

definition running_average :: "int \<Rightarrow> nat \<Rightarrow> int \<Rightarrow> int" where
  "running_average old totalColors new =
     js_round (fl (real_of_int (old * int (totalColors - 1) + new) / real totalColors))"

definition merge_color :: "color_group \<Rightarrow> color \<Rightarrow> color_group" where
  "merge_color grp c =
     (let members = colors grp @ [c];
          totalColors = length members;
          rep = representative grp
      in \<lparr>representative =
            \<lparr>red = running_average (red rep) totalColors (red c),
             green = running_average (green rep) totalColors (green c),
             blue = running_average (blue rep) totalColors (blue c),
             alpha = running_average (alpha rep) totalColors (alpha c)\<rparr>,
          colors = members,
          count = count grp + 1\<rparr>)"

text \<open>
  One round of the outer loop: the first group whose representative is nearer than 20
  takes the colour; when no group does, a new group is pushed at the end.
\<close>

fun add_color :: "color \<Rightarrow> color_group list \<Rightarrow> color_group list" where
  "add_color c [] = [\<lparr>representative = c, colors = [c], count = 1\<rparr>]"
| "add_color c (grp # groups) =
     (if perceptualColorDistance c (representative grp) < 20
      then merge_color grp c # groups
      else grp # add_color c groups)"

definition valid_colors :: "color option list \<Rightarrow> color list" where
  "valid_colors sampledColors =
     List.map_filter (\<lambda>s. case s of None \<Rightarrow> None
                          | Some c \<Rightarrow> if alpha c > 0 then Some c else None) sampledColors"

definition group_colors :: "color list \<Rightarrow> color_group list" where
  "group_colors validColors = foldl (\<lambda>groups c. add_color c groups) [] validColors"

text \<open>
  \<open>colorGroups.sort((a, b) => b.count - a.count)\<close>: a stable sort, larger counts first.
\<close>

definition findDominantColors :: "color option list \<Rightarrow> color list" where
  "findDominantColors sampledColors =
     (let validColors = valid_colors sampledColors in
      if validColors = [] then []
      else
        let colorGroups = sort_key (\<lambda>grp. - int (count grp)) (group_colors validColors);
            totalSamples = length validColors
        in map representative
             (filter (\<lambda>grp. fl (real (count grp) / real totalSamples) \<ge> fl 0.08) colorGroups))"

section \<open>Background Mask Initializer\<close>

definition createInitialBackgroundMask ::
  "nat list \<Rightarrow> nat \<Rightarrow> nat \<Rightarrow> color list \<Rightarrow> bool list" where
  "createInitialBackgroundMask data width height dominantColors =
     (let totalPixels = width * height in
      if dominantColors = [] then replicate totalPixels False
      else map (\<lambda>i. case pixel_at data (int i) of
                       None \<Rightarrow> False
                     | Some pixelColor \<Rightarrow>
                         alpha pixelColor = 0 \<or>
                         foldl (\<lambda>minDistance dominantColor.
                                  min minDistance (perceptualColorDistance pixelColor dominantColor))
                               255 dominantColors < 25)
               [0..<totalPixels])"

section \<open>Skin Tone Detector\<close>

definition rgbToHsv :: "int \<Rightarrow> int \<Rightarrow> int \<Rightarrow> int \<times> real \<times> real" where
  "rgbToHsv r0 g0 b0 =
     (let r = fl (real_of_int r0 / 255); g = fl (real_of_int g0 / 255);
          b = fl (real_of_int b0 / 255);
          mx = max (max r g) b; mn = min (min r g) b;
          delta = fl (mx - mn);
          h0 = (if delta = 0 then 0
                else if mx = r then js_rem (fl (fl (g - b) / delta)) 6
                else if mx = g then fl (fl (fl (b - r) / delta) + 2)
                else fl (fl (fl (r - g) / delta) + 4));
          h1 = js_round (fl (h0 * 60));
          h = (if h1 < 0 then h1 + 360 else h1);
          s = (if mx = 0 then 0 else fl (delta / mx));
          v = mx
      in (h, s, v))"

definition skin_rule :: "int \<Rightarrow> int \<Rightarrow> int \<Rightarrow> bool" where
  "skin_rule r g b =
     (case rgbToHsv r g b of (h, s, v) \<Rightarrow>
        ((h \<ge> 0 \<and> h \<le> 50 \<and> s \<ge> fl 0.1 \<and> s \<le> fl 0.8 \<and> v \<ge> fl 0.35 \<and> v \<le> fl 0.95) \<or>
         (h \<ge> 0 \<and> h \<le> 35 \<and> s \<ge> fl 0.1 \<and> s \<le> fl 0.8 \<and> v \<ge> fl 0.2 \<and> v \<le> fl 0.8))
        \<and> r > g \<and> g > b)"

definition skin_pixel :: "nat list \<Rightarrow> nat \<Rightarrow> bool" where
  "skin_pixel data i =
     (case pixel_at data (int i) of
        None \<Rightarrow> False
      | Some c \<Rightarrow> alpha c \<noteq> 0 \<and> skin_rule (red c) (green c) (blue c))"

definition rawSkinMask :: "nat list \<Rightarrow> nat \<Rightarrow> nat \<Rightarrow> bool list" where
  "rawSkinMask data width height = map (skin_pixel data) [0..<width * height]"

definition detectSkinTones :: "nat list \<Rightarrow> nat \<Rightarrow> nat \<Rightarrow> bool list" where
  "detectSkinTones data width height =
     (let skinMask = rawSkinMask data width height;
          refinedSkinMask = dilate skinMask width height;
          refinedSkinMask = erode refinedSkinMask width height;
          refinedSkinMask = dilate refinedSkinMask width height;
          refinedSkinMask = dilate refinedSkinMask width height;
          refinedSkinMask = erode refinedSkinMask width height
      in refinedSkinMask)"

section \<open>Clothing/Texture Detector\<close>

text \<open>
  A brightness or a distance computed from a missing pixel is \<open>NaN\<close>, and every
  comparison with \<open>NaN\<close> is false.
\<close>

definition isPartOfContinuousRegion ::
  "nat \<Rightarrow> nat list \<Rightarrow> nat \<Rightarrow> nat \<Rightarrow> real \<Rightarrow> bool" where
  "isPartOfContinuousRegion idx data width height brightnessThreshold =
     (let x = idx mod width; y = idx div width in
      case getPixelBrightness data (int x) (int y) width of
        None \<Rightarrow> False
      | Some centerBrightness \<Rightarrow>
          if centerBrightness < brightnessThreshold then False
          else
            let cells = window_cells 3 width height x y;
                totalChecked = length cells;
                similarCount = length (filter (\<lambda>(nx, ny).
                    case getPixelBrightness data nx ny width of
                      None \<Rightarrow> False
                    | Some neighborBrightness \<Rightarrow>
                        \<bar>fl (centerBrightness - neighborBrightness)\<bar> < 30) cells)
            in real similarCount > fl (real totalChecked * fl 0.6))"

definition isTexturedRegion :: "nat \<Rightarrow> nat list \<Rightarrow> nat \<Rightarrow> nat \<Rightarrow> bool" where
  "isTexturedRegion idx data width height =
     (let x = idx mod width; y = idx div width in
      case getPixelColor data (int x) (int y) width of
        None \<Rightarrow> False
      | Some centerColor \<Rightarrow>
          (case those (map (\<lambda>(nx, ny).
                   map_option (perceptualColorDistance centerColor)
                     (getPixelColor data nx ny width))
                 (window_cells 2 width height x y)) of
             None \<Rightarrow> False
           | Some colorDiffs \<Rightarrow>
               let varianceSum = foldl (\<lambda>acc colorDiff. fl (acc + colorDiff)) 0 colorDiffs;
                   avgVariance = fl (varianceSum / real (length colorDiffs))
               in avgVariance > 5 \<and> avgVariance < 25))"

definition isHighContrastArea :: "nat \<Rightarrow> nat list \<Rightarrow> nat \<Rightarrow> nat \<Rightarrow> bool" where
  "isHighContrastArea idx data width height =
     (let x = idx mod width; y = idx div width in
      case getPixelBrightness data (int x) (int y) width of
        None \<Rightarrow> False
      | Some centerBrightness \<Rightarrow>
          let highContrastCount = length (filter (\<lambda>(nx, ny).
                  case getPixelBrightness data nx ny width of
                    None \<Rightarrow> False
                  | Some neighborBrightness \<Rightarrow>
                      \<bar>fl (centerBrightness - neighborBrightness)\<bar> > 50)
                (window_cells 2 width height x y))
          in highContrastCount \<ge> 3)"

definition clothing_pixel :: "nat list \<Rightarrow> nat \<Rightarrow> nat \<Rightarrow> nat \<Rightarrow> bool" where
  "clothing_pixel data width height i =
     (case pixel_at data (int i) of
        None \<Rightarrow> False
      | Some c \<Rightarrow>
          if alpha c = 0 then False
          else
            let x = int (i mod width); y = int (i div width) in
            if x < 5 \<or> x \<ge> int width - 5 \<or> y < 5 \<or> y \<ge> int height - 5 then False
            else
              let brightness = fl (real_of_int (red c + green c + blue c) / 3) in
                (brightness > 180 \<and> isPartOfContinuousRegion i data width height 180)
              \<or> isTexturedRegion i data width height
              \<or> isHighContrastArea i data width height)"

definition rawClothingMask :: "nat list \<Rightarrow> nat \<Rightarrow> nat \<Rightarrow> bool list" where
  "rawClothingMask data width height = map (clothing_pixel data width height) [0..<width * height]"

definition detectClothing :: "nat list \<Rightarrow> nat \<Rightarrow> nat \<Rightarrow> bool list" where
  "detectClothing data width height =
     (let clothingMask = rawClothingMask data width height;
          refinedClothingMask = dilate clothingMask width height;
          refinedClothingMask = erode refinedClothingMask width height;
          refinedClothingMask = dilate refinedClothingMask width height;
          refinedClothingMask = dilate refinedClothingMask width height;
          refinedClothingMask = erode refinedClothingMask width height
      in refinedClothingMask)"

section \<open>Mask Compositor\<close>

definition neighbors4 :: "int \<Rightarrow> int \<Rightarrow> (int \<times> int) list" where
  "neighbors4 x y = [(x + 1, y), (x - 1, y), (x, y + 1), (x, y - 1)]"

subsection \<open>\<open>floodFillBackground\<close>\<close>

text \<open>
  The queue is seeded with the true entries of \<open>definiteBackground\<close> on the top and
  bottom rows, then on the left and right columns.
\<close>

definition floodFill_seeds :: "bool list \<Rightarrow> nat \<Rightarrow> nat \<Rightarrow> nat list" where
  "floodFill_seeds definiteBackground width height =
     concat (map (\<lambda>x.
         (if js_get definiteBackground x then [x] else []) @
         (if js_get_int definiteBackground ((int height - 1) * int width + int x)
          then [nat ((int height - 1) * int width + int x)] else []))
       [0..<width])
   @ concat (map (\<lambda>y.
         (if js_get definiteBackground (y * width) then [y * width] else []) @
         (if js_get_int definiteBackground (int y * int width + int width - 1)
          then [nat (int y * int width + int width - 1)] else []))
       [0..<height])"

text \<open>
  The body of \<open>for (const neighbor of neighbors)\<close>: a neighbour inside the image whose
  entry of \<open>result\<close> is falsy is set to true and pushed.
\<close>

definition floodFill_visit ::
  "nat \<Rightarrow> nat \<Rightarrow> nat list \<times> bool list \<Rightarrow> int \<times> int \<Rightarrow> nat list \<times> bool list" where
  "floodFill_visit width height st neighbor =
     (case st of (queue, res) \<Rightarrow>
      case neighbor of (nx, ny) \<Rightarrow>
        if in_image width height nx ny then
          let neighborIdx = nat (ny * int width + nx) in
          if \<not> js_get res neighborIdx
          then (queue @ [neighborIdx], js_set res neighborIdx True)
          else (queue, res)
        else (queue, res))"

definition unfilled :: "nat \<Rightarrow> nat \<Rightarrow> bool list \<Rightarrow> nat" where
  "unfilled width height res = card {i. i < width * height \<and> \<not> js_get res i}"

lemma js_get_js_set: "js_get (js_set xs i v) j = (if j = i then v else js_get xs j)"
  by (auto simp: js_get_def js_set_def nth_append nth_list_update)

lemma in_image_index:
  assumes "in_image width height nx ny"
  shows "nat (ny * int width + nx) < width * height"
proof -
  from assms have n: "0 \<le> nx" "nx < int width" "0 \<le> ny" "ny < int height"
    by (auto simp: in_image_def)
  then have "ny + 1 \<le> int height" by simp
  then have "(ny + 1) * int width \<le> int height * int width"
    by (rule mult_right_mono) simp
  with n have "ny * int width + nx < int height * int width"
    by (simp add: algebra_simps)
  moreover have "0 \<le> ny * int width + nx" using n by simp
  ultimately show ?thesis
    by (metis (no_types) mult.commute nat_less_iff of_nat_mult)
qed

lemma unfilled_js_set:
  assumes "i < width * height" "\<not> js_get res i"
  shows "unfilled width height (js_set res i True) < unfilled width height res"
proof -
  have "{j. j < width * height \<and> \<not> js_get (js_set res i True) j}
        \<subset> {j. j < width * height \<and> \<not> js_get res j}"
    using assms by (auto simp: js_get_js_set)
  then show ?thesis unfolding unfilled_def by (intro psubset_card_mono) auto
qed

lemma floodFill_visit_measure:
  assumes "floodFill_visit width height (queue, res) neighbor = (queue', res')"
  shows "2 * unfilled width height res' + length queue'
         \<le> 2 * unfilled width height res + length queue"
proof (cases neighbor)
  case (Pair nx ny)
  show ?thesis
  proof (cases "in_image width height nx ny \<and> \<not> js_get res (nat (ny * int width + nx))")
    case True
    then have "unfilled width height (js_set res (nat (ny * int width + nx)) True)
               < unfilled width height res"
      by (intro unfilled_js_set in_image_index) auto
    with True assms Pair show ?thesis by (auto simp: floodFill_visit_def Let_def)
  next
    case False
    with assms Pair show ?thesis by (auto simp: floodFill_visit_def Let_def split: if_splits)
  qed
qed

lemma floodFill_visits_measure:
  "foldl (floodFill_visit width height) (queue, res) neighbors = (queue', res') \<Longrightarrow>
   2 * unfilled width height res' + length queue'
     \<le> 2 * unfilled width height res + length queue"
proof (induction neighbors arbitrary: queue res)
  case Nil
  then show ?case by simp
next
  case (Cons n ns)
  obtain q1 r1 where s: "floodFill_visit width height (queue, res) n = (q1, r1)"
    by (cases "floodFill_visit width height (queue, res) n")
  from Cons.prems s have "foldl (floodFill_visit width height) (q1, r1) ns = (queue', res')"
    by simp
  from Cons.IH[OF this] floodFill_visit_measure[OF s] show ?case by simp
qed

text \<open>
  \<open>while (queue.length > 0) { const idx = queue.shift(); ... }\<close>.  Every push turns a
  false entry inside the image into a true one, so the loop ends.
\<close>

function floodFill_loop :: "nat \<Rightarrow> nat \<Rightarrow> nat list \<Rightarrow> bool list \<Rightarrow> bool list" where
  "floodFill_loop width height [] res = res"
| "floodFill_loop width height (idx # queue) res =
     (case foldl (floodFill_visit width height) (queue, res)
             (neighbors4 (int (idx mod width)) (int (idx div width))) of
        (queue', res') \<Rightarrow> floodFill_loop width height queue' res')"
  by pat_completeness auto
termination
  apply (relation "measure (\<lambda>(width, height, queue, res). 2 * unfilled width height res + length queue)")
   apply simp
  subgoal premises p for width height idx queue res queue' res'
    using floodFill_visits_measure[OF p[symmetric]] by (simp add: p[symmetric])
  done

definition floodFillBackground :: "bool list \<Rightarrow> nat \<Rightarrow> nat \<Rightarrow> bool list" where
  "floodFillBackground definiteBackground width height =
     floodFill_loop width height (floodFill_seeds definiteBackground width height)
       definiteBackground"

subsection \<open>The tie-break heuristics\<close>

definition isSurroundedByBackground :: "nat \<Rightarrow> bool list \<Rightarrow> nat \<Rightarrow> nat \<Rightarrow> bool" where
  "isSurroundedByBackground idx backgroundMask width height =
     (let x = idx mod width; y = idx div width;
          cells = window_cells 2 width height x y;
          totalChecked = length cells;
          backgroundCount = length (filter (\<lambda>(nx, ny).
              js_get_int backgroundMask (ny * int width + nx)) cells)
      in real backgroundCount > fl (real totalChecked * fl 0.7))"

definition region_visit ::
  "bool list \<Rightarrow> nat \<Rightarrow> nat \<Rightarrow> (int \<times> int) list \<times> bool list \<Rightarrow> int \<times> int
     \<Rightarrow> (int \<times> int) list \<times> bool list" where
  "region_visit backgroundMask width height st neighbor =
     (case st of (queue, visited) \<Rightarrow>
      case neighbor of (nx, ny) \<Rightarrow>
        if in_image width height nx ny then
          let neighborIdx = nat (ny * int width + nx) in
          if \<not> js_get visited neighborIdx \<and> \<not> js_get backgroundMask neighborIdx
          then (queue @ [(nx, ny)], js_set visited neighborIdx True)
          else (queue, visited)
        else (queue, visited))"

text \<open>\<open>while (queue.length > 0 && regionSize < 500)\<close>: at most 500 rounds.\<close>

function region_loop ::
  "bool list \<Rightarrow> nat \<Rightarrow> nat \<Rightarrow> (int \<times> int) list \<Rightarrow> bool list \<Rightarrow> nat \<Rightarrow> nat" where
  "region_loop backgroundMask width height [] visited regionSize = regionSize"
| "region_loop backgroundMask width height (current # queue) visited regionSize =
     (if regionSize < 500 then
        (case foldl (region_visit backgroundMask width height) (queue, visited)
                (neighbors4 (fst current) (snd current)) of
           (queue', visited') \<Rightarrow>
             region_loop backgroundMask width height queue' visited' (regionSize + 1))
      else regionSize)"
  by pat_completeness auto
termination
  by (relation "measure (\<lambda>(backgroundMask, width, height, queue, visited, regionSize).
                  500 - regionSize)") auto

definition isPartOfLargeRegion :: "nat \<Rightarrow> bool list \<Rightarrow> nat \<Rightarrow> nat \<Rightarrow> bool" where
  "isPartOfLargeRegion idx backgroundMask width height =
     (if js_get backgroundMask idx then False
      else region_loop backgroundMask width height
             [(int (idx mod width), int (idx div width))]
             (js_set (replicate (width * height) False) idx True) 0 \<ge> 100)"

definition ensureEdgesRemoved :: "bool list \<Rightarrow> nat \<Rightarrow> nat \<Rightarrow> bool list" where
  "ensureEdgesRemoved msk width height =
     foldl (\<lambda>res y. foldl (\<lambda>res x.
         if int x < 5 \<or> int x \<ge> int width - 5 \<or> int y < 5 \<or> int y \<ge> int height - 5
         then js_set res (y * width + x) True else res) res [0..<width])
       msk [0..<height]"

subsection \<open>\<open>refineCompositeMask\<close>\<close>

definition composite_pixel :: "bool list \<Rightarrow> bool list \<Rightarrow> bool list \<Rightarrow> nat \<Rightarrow> nat \<Rightarrow> nat \<Rightarrow> bool" where
  "composite_pixel floodFilledBackground skinMask clothingMask width height i =
     (if js_get skinMask i \<or> js_get clothingMask i then False
      else if js_get floodFilledBackground i then True
      else
        let x = int (i mod width); y = int (i div width) in
        if x < 10 \<or> x \<ge> int width - 10 \<or> y < 10 \<or> y \<ge> int height - 10 then True
        else if isSurroundedByBackground i floodFilledBackground width height then True
        else if \<not> isPartOfLargeRegion i floodFilledBackground width height then True
        else False)"

definition refineCompositeMask ::
  "bool list \<Rightarrow> bool list \<Rightarrow> bool list \<Rightarrow> nat list \<Rightarrow> nat \<Rightarrow> nat \<Rightarrow> bool list" where
  "refineCompositeMask initialMask skinMask clothingMask imageData width height =
     (let totalPixels = width * height;
          floodFilledBackground = floodFillBackground initialMask width height;
          compositeMask = map (composite_pixel floodFilledBackground skinMask clothingMask
                                 width height) [0..<totalPixels];
          finalMask = compositeMask;
          finalMask = dilate finalMask width height;
          finalMask = erode finalMask width height;
          finalMask = erode finalMask width height;
          finalMask = dilate finalMask width height;
          finalMask = ensureEdgesRemoved finalMask width height
      in finalMask)"

section \<open>The segmentation pipeline\<close>

definition improvedBackgroundDetection :: "nat list \<Rightarrow> nat \<Rightarrow> nat \<Rightarrow> bool list" where
  "improvedBackgroundDetection imageData width height =
     (let sampledColors = sampleEdgesOnly imageData width height;
          dominantColors = findDominantColors sampledColors;
          initialMask = createInitialBackgroundMask imageData width height dominantColors;
          skinToneMask = detectSkinTones imageData width height;
          clothingMask = detectClothing imageData width height
      in refineCompositeMask initialMask skinToneMask clothingMask imageData width height)"

text \<open>
  The loop of \<open>removeBackground\<close> that applies the mask:
  \<open>for (let i = 0; i < data.length; i += 4) if (backgroundMask[i/4]) data[i + 3] = 0\<close>.
  The buffer is a typed array: a write past its end is dropped.
\<close>

definition applyBackgroundMask :: "bool list \<Rightarrow> nat list \<Rightarrow> nat list" where
  "applyBackgroundMask backgroundMask data =
     foldl (\<lambda>d k. if js_get backgroundMask k then d[4 * k + 3 := 0] else d)
       data [0..<(length data + 3) div 4]"

definition removeBackground :: "nat list \<Rightarrow> nat \<Rightarrow> nat \<Rightarrow> nat list" where
  "removeBackground data width height =
     applyBackgroundMask (improvedBackgroundDetection data width height) data"

section \<open>The first version of the removal (\<open>main.js\<close>)\<close>

text \<open>
  \<open>applyMaskToImage\<close>: the mask is a \<open>Uint8Array\<close> in which 0 stands for background.
\<close>

definition applyMaskToImage :: "nat list \<Rightarrow> nat list \<Rightarrow> nat \<Rightarrow> nat \<Rightarrow> nat list" where
  "applyMaskToImage msk data width height =
     foldl (\<lambda>d i. if i < length msk \<and> msk ! i = 0 then d[i * 4 + 3 := 0] else d)
       data [0..<width * height]"

text \<open>
  The remove mode of the brush: \<open>if (maskData[i + 3] < 128) data[i + 3] = 0\<close> for
  \<open>i = 0, 4, 8, ...\<close> below \<open>data.length\<close>; a missing mask byte compares false.
\<close>

definition brushRemove :: "nat list \<Rightarrow> nat list \<Rightarrow> nat list" where
  "brushRemove maskData data =
     foldl (\<lambda>d k. if 4 * k + 3 < length maskData \<and> maskData ! (4 * k + 3) < 128
                   then d[4 * k + 3 := 0] else d)
       data [0..<(length data + 3) div 4]"

section \<open>Alpha Post-Processor: \<open>removeSmallRegions\<close>\<close>

text \<open>
  \<open>transparentMask\<close> is the \<open>Uint8Array\<close> that \<open>postProcessResult\<close> fills with 1 for
  alpha 0 and with 0 otherwise; \<open>visited\<close> is a \<open>Uint8Array\<close> of \<open>width * height\<close>
  zeros, read for truthiness, and every index written to it is below its length.
\<close>

definition transparentMaskOf :: "nat list \<Rightarrow> nat \<Rightarrow> nat \<Rightarrow> nat list" where
  "transparentMaskOf data width height =
     map (\<lambda>i. if i * 4 + 3 < length data \<and> data ! (i * 4 + 3) = 0 then 1 else 0)
       [0..<width * height]"

definition mask_equals :: "nat list \<Rightarrow> nat \<Rightarrow> nat \<Rightarrow> bool" where
  "mask_equals transparentMask i v = (i < length transparentMask \<and> transparentMask ! i = v)"

definition smallRegion_visit ::
  "nat list \<Rightarrow> nat \<Rightarrow> nat \<Rightarrow> bool \<Rightarrow> nat list \<times> bool list \<Rightarrow> int \<times> int
     \<Rightarrow> nat list \<times> bool list" where
  "smallRegion_visit transparentMask width height isTransparent st neighbor =
     (case st of (queue, visited) \<Rightarrow>
      case neighbor of (nx, ny) \<Rightarrow>
        if nx < 0 \<or> nx \<ge> int width \<or> ny < 0 \<or> ny \<ge> int height then (queue, visited)
        else
          let ni = nat (ny * int width + nx) in
          if \<not> js_get visited ni
             \<and> mask_equals transparentMask ni (if isTransparent then 1 else 0)
          then (queue @ [ni], js_set visited ni True)
          else (queue, visited))"

lemma smallRegion_visit_measure:
  assumes "smallRegion_visit transparentMask width height t (queue, visited) neighbor
             = (queue', visited')"
  shows "2 * unfilled width height visited' + length queue'
         \<le> 2 * unfilled width height visited + length queue"
proof (cases neighbor)
  case (Pair nx ny)
  show ?thesis
  proof (cases "in_image width height nx ny \<and> \<not> js_get visited (nat (ny * int width + nx))")
    case True
    then have "unfilled width height (js_set visited (nat (ny * int width + nx)) True)
               < unfilled width height visited"
      by (intro unfilled_js_set in_image_index) auto
    with True assms Pair show ?thesis
      by (auto simp: smallRegion_visit_def Let_def split: if_splits)
  next
    case False
    with assms Pair show ?thesis
      by (auto simp: smallRegion_visit_def Let_def in_image_def split: if_splits)
  qed
qed

lemma smallRegion_visits_measure:
  "foldl (smallRegion_visit transparentMask width height t) (queue, visited) neighbors
     = (queue', visited') \<Longrightarrow>
   2 * unfilled width height visited' + length queue'
     \<le> 2 * unfilled width height visited + length queue"
proof (induction neighbors arbitrary: queue visited)
  case Nil
  then show ?case by simp
next
  case (Cons n ns)
  obtain q1 v1 where s: "smallRegion_visit transparentMask width height t (queue, visited) n = (q1, v1)"
    by (cases "smallRegion_visit transparentMask width height t (queue, visited) n")
  from Cons.prems s
  have "foldl (smallRegion_visit transparentMask width height t) (q1, v1) ns = (queue', visited')"
    by simp
  from Cons.IH[OF this] smallRegion_visit_measure[OF s] show ?case by simp
qed

text \<open>
  The inner \<open>while (queue.length > 0)\<close>: the state is the queue, \<open>visited\<close>, the
  \<open>region\<close> collected so far and \<open>touchesEdge\<close>.
\<close>

function smallRegion_bfs ::
  "nat list \<Rightarrow> nat \<Rightarrow> nat \<Rightarrow> bool \<Rightarrow> nat list \<Rightarrow> bool list \<Rightarrow> nat list \<Rightarrow> bool
     \<Rightarrow> bool list \<times> nat list \<times> bool" where
  "smallRegion_bfs transparentMask width height isTransparent [] visited region touchesEdge
     = (visited, region, touchesEdge)"
| "smallRegion_bfs transparentMask width height isTransparent (current # queue) visited region
     touchesEdge =
     (case foldl (smallRegion_visit transparentMask width height isTransparent) (queue, visited)
             (neighbors4 (int (current mod width)) (int (current div width))) of
        (queue', visited') \<Rightarrow>
          smallRegion_bfs transparentMask width height isTransparent queue' visited'
            (region @ [current])
            (touchesEdge \<or> current mod width = 0 \<or> int (current mod width) = int width - 1
               \<or> current div width = 0 \<or> int (current div width) = int height - 1))"
  by pat_completeness auto
termination
  apply (relation "measure (\<lambda>(transparentMask, width, height, isTransparent, queue, visited,
                    region, touchesEdge). 2 * unfilled width height visited + length queue)")
   apply simp
  subgoal premises p for transparentMask width height isTransparent current queue visited
      region touchesEdge queue' visited'
    using smallRegion_visits_measure[OF p[symmetric]] by (simp add: p[symmetric])
  done

definition flip_region :: "bool \<Rightarrow> nat list \<Rightarrow> nat list \<Rightarrow> nat list" where
  "flip_region isTransparent region data =
     foldl (\<lambda>d idx. d[idx * 4 + 3 := (if isTransparent then 255 else 0)]) data region"

definition removeSmallRegions_step ::
  "nat list \<Rightarrow> nat \<Rightarrow> nat \<Rightarrow> bool list \<times> nat list \<Rightarrow> nat \<Rightarrow> bool list \<times> nat list" where
  "removeSmallRegions_step transparentMask width height st i =
     (case st of (visited, data) \<Rightarrow>
      if js_get visited i then (visited, data)
      else
        let isTransparent = mask_equals transparentMask i 1 in
        case smallRegion_bfs transparentMask width height isTransparent [i]
               (js_set visited i True) [] False of
          (visited', region, touchesEdge) \<Rightarrow>
            let threshold = (if isTransparent then 200 else 100 :: nat) in
            if \<not> touchesEdge \<and> length region < threshold
            then (visited', flip_region isTransparent region data)
            else (visited', data))"

definition removeSmallRegions :: "nat list \<Rightarrow> nat list \<Rightarrow> nat \<Rightarrow> nat \<Rightarrow> nat list" where
  "removeSmallRegions transparentMask data width height =
     snd (foldl (removeSmallRegions_step transparentMask width height)
            (replicate (width * height) False, data) [0..<width * height])"

section \<open>Alpha Post-Processor: \<open>smoothEdges\<close> and \<open>postProcessResult\<close>\<close>

text \<open>
  \<open>tempAlpha\<close> is a \<open>Uint8Array\<close> copy of the alpha bytes (a missing byte is stored as
  0); it has \<open>width * height\<close> entries, and every index read from it is below that.
\<close>

definition alphaCopy :: "nat list \<Rightarrow> nat \<Rightarrow> nat \<Rightarrow> nat list" where
  "alphaCopy data width height =
     map (\<lambda>i. if i * 4 + 3 < length data then data ! (i * 4 + 3) else 0) [0..<width * height]"

text \<open>The cells of the 3x3 box around \<open>(x, y)\<close> that lie inside the image, centre included.\<close>

definition box_cells :: "nat \<Rightarrow> nat \<Rightarrow> nat \<Rightarrow> nat \<Rightarrow> (int \<times> int) list" where
  "box_cells width height x y =
     concat (map (\<lambda>dy. concat (map (\<lambda>dx.
         if in_image width height (int x + dx) (int y + dy) then [(int x + dx, int y + dy)]
         else []) [- 1..1])) [- 1..1])"

definition smoothEdges_isEdge :: "nat list \<Rightarrow> nat \<Rightarrow> nat \<Rightarrow> nat \<Rightarrow> bool" where
  "smoothEdges_isEdge tempAlpha width height i =
     list_ex (\<lambda>(nx, ny).
         let ni = nat (ny * int width + nx) in
           (tempAlpha ! i = 0 \<and> tempAlpha ! ni > 0) \<or> (tempAlpha ! i > 0 \<and> tempAlpha ! ni = 0))
       (window_cells 1 width height (i mod width) (i div width))"

definition smoothEdges_blur :: "nat list \<Rightarrow> nat \<Rightarrow> nat \<Rightarrow> nat \<Rightarrow> nat" where
  "smoothEdges_blur tempAlpha width height i =
     (let cells = box_cells width height (i mod width) (i div width);
          total = sum_list (map (\<lambda>(nx, ny). tempAlpha ! nat (ny * int width + nx)) cells);
          cnt = length cells
      in nat (js_round (fl (real total / real cnt))))"

text \<open>
  The loops over \<open>y\<close> and \<open>x\<close> visit \<open>i = y * width + x\<close> in increasing order.
\<close>

definition smoothEdges :: "nat list \<Rightarrow> nat \<Rightarrow> nat \<Rightarrow> nat list" where
  "smoothEdges data width height =
     (let tempAlpha = alphaCopy data width height in
      foldl (\<lambda>d i. if smoothEdges_isEdge tempAlpha width height i
                    then d[i * 4 + 3 := smoothEdges_blur tempAlpha width height i] else d)
        data [0..<width * height])"

definition postProcessResult :: "nat list \<Rightarrow> nat \<Rightarrow> nat \<Rightarrow> nat list" where
  "postProcessResult data width height =
     smoothEdges (removeSmallRegions (transparentMaskOf data width height) data width height)
       width height"

text \<open>
  Steps 3 and 4 of \<open>removeBackgroundPro\<close>, the only ones that write the buffer; the
  mask computed by steps 1 and 2 is a parameter.
\<close>

definition removeBackgroundPro_apply :: "nat list \<Rightarrow> nat list \<Rightarrow> nat \<Rightarrow> nat \<Rightarrow> nat list" where
  "removeBackgroundPro_apply msk data width height =
     postProcessResult (applyMaskToImage msk data width height) width height"

section \<open>Vocabulary of the claims\<close>

text \<open>
  A buffer given pixel by pixel: \<open>buffer_of f n\<close> holds the bytes R, G, B, A of
  \<open>f 0\<close>, ..., \<open>f (n - 1)\<close>.  A uniform image of colour \<open>(r, g, b, a)\<close> is
  \<open>buffer_of (\<lambda>i. (r, g, b, a)) (width * height)\<close>.
\<close>

definition buffer_of :: "(nat \<Rightarrow> nat \<times> nat \<times> nat \<times> nat) \<Rightarrow> nat \<Rightarrow> nat list" where
  "buffer_of f n = concat (map (\<lambda>i. case f i of (r, g, b, a) \<Rightarrow> [r, g, b, a]) [0..<n])"

definition colour_of :: "nat \<times> nat \<times> nat \<times> nat \<Rightarrow> color" where
  "colour_of p = (case p of (r, g, b, a) \<Rightarrow>
     \<lparr>red = int r, green = int g, blue = int b, alpha = int a\<rparr>)"

definition rgba :: "int \<Rightarrow> int \<Rightarrow> int \<Rightarrow> int \<Rightarrow> color" where
  "rgba r g b a = \<lparr>red = r, green = g, blue = b, alpha = a\<rparr>"

text \<open>A sequence of morphological passes, applied from left to right.\<close>

datatype morph_op = Dilate | Erode

definition apply_ops :: "morph_op list \<Rightarrow> bool list \<Rightarrow> nat \<Rightarrow> nat \<Rightarrow> bool list" where
  "apply_ops ops msk width height =
     foldl (\<lambda>m op. case op of Dilate \<Rightarrow> dilate m width height | Erode \<Rightarrow> erode m width height) msk ops"

text \<open>
  \<open>near_edge d\<close>: the pixel is less than \<open>d\<close> pixels away from an image edge
  (\<open>x < d || x >= width - d || y < d || y >= height - d\<close>); \<open>inside d\<close> is its
  negation for the pixels of the image.
\<close>

definition near_edge :: "nat \<Rightarrow> nat \<Rightarrow> nat \<Rightarrow> nat \<Rightarrow> nat \<Rightarrow> bool" where
  "near_edge d width height x y = (x < d \<or> width \<le> x + d \<or> y < d \<or> height \<le> y + d)"

text \<open>
  \<open>rounded_square\<close> is the argument of \<open>Math.sqrt\<close> in the perceptual distance.
  The vocabulary of the clusterer's running representative: \<open>average_in rep n c\<close> is
  the representative after \<open>c\<close> has come in as the \<open>n\<close>-th member,
  \<open>near_running\<close> says that every colour of a list is nearer than 20 to the
  representative it meets, \<open>running_representative\<close> is the representative at the end,
  \<open>channel_average\<close> the exact mean of one channel and \<open>pairwise_within\<close> the
  hypothesis that all colours are nearer than 20 to each other.
\<close>

definition rounded_square :: "color \<Rightarrow> color \<Rightarrow> real" where
  "rounded_square c d =
     (let rDiff = real_of_int (red c - red d);
          gDiff = real_of_int (green c - green d);
          bDiff = real_of_int (blue c - blue d)
      in fl (fl (fl (fl (fl 0.299 * rDiff) * rDiff) + fl (fl (fl 0.587 * gDiff) * gDiff))
             + fl (fl (fl 0.114 * bDiff) * bDiff)))"

definition average_in :: "color \<Rightarrow> nat \<Rightarrow> color \<Rightarrow> color" where
  "average_in rep n c =
     \<lparr>red = running_average (red rep) n (red c),
      green = running_average (green rep) n (green c),
      blue = running_average (blue rep) n (blue c),
      alpha = running_average (alpha rep) n (alpha c)\<rparr>"

fun near_running :: "color \<Rightarrow> nat \<Rightarrow> color list \<Rightarrow> bool" where
  "near_running rep n [] = True"
| "near_running rep n (c # cs) =
     (perceptualColorDistance c rep < 20 \<and> near_running (average_in rep (n + 1) c) (n + 1) cs)"

fun running_representative :: "color \<Rightarrow> nat \<Rightarrow> color list \<Rightarrow> color" where
  "running_representative rep n [] = rep"
| "running_representative rep n (c # cs) =
     running_representative (average_in rep (n + 1) c) (n + 1) cs"

text \<open>A colour whose four channels are bytes.\<close>

definition byte_color :: "color \<Rightarrow> bool" where
  "byte_color c = (0 \<le> red c \<and> red c \<le> 255 \<and> 0 \<le> green c \<and> green c \<le> 255
                   \<and> 0 \<le> blue c \<and> blue c \<le> 255 \<and> 0 \<le> alpha c \<and> alpha c \<le> 255)"

definition channel_average :: "(color \<Rightarrow> int) \<Rightarrow> color list \<Rightarrow> real" where
  "channel_average channel cs = real_of_int (sum_list (map channel cs)) / real (length cs)"

definition pairwise_within :: "color list \<Rightarrow> bool" where
  "pairwise_within cs = list_all (\<lambda>c. list_all (\<lambda>d. perceptualColorDistance c d < 20) cs) cs"

text \<open>
  A mask covers (avoids) a set of pixels when it is true (false) at each of them; the
  five cleanup passes of the detectors and the last five steps of the compositor.
\<close>

definition covers :: "bool list \<Rightarrow> nat \<Rightarrow> nat \<Rightarrow> (nat \<Rightarrow> nat \<Rightarrow> bool) \<Rightarrow> bool" where
  "covers m w h P = (\<forall>x y. x < w \<and> y < h \<and> P x y \<longrightarrow> js_get m (y * w + x))"

definition avoids :: "bool list \<Rightarrow> nat \<Rightarrow> nat \<Rightarrow> (nat \<Rightarrow> nat \<Rightarrow> bool) \<Rightarrow> bool" where
  "avoids m w h P = (\<forall>x y. x < w \<and> y < h \<and> P x y \<longrightarrow> \<not> js_get m (y * w + x))"

definition cleanup_chain :: "bool list \<Rightarrow> nat \<Rightarrow> nat \<Rightarrow> bool list" where
  "cleanup_chain m w h = erode (dilate (dilate (erode (dilate m w h) w h) w h) w h) w h"

definition final_chain :: "bool list \<Rightarrow> nat \<Rightarrow> nat \<Rightarrow> bool list" where
  "final_chain m w h = ensureEdgesRemoved (dilate (erode (erode (dilate m w h) w h) w h) w h) w h"

text \<open>\<open>alpha_only d d'\<close>: the two buffers have the same length and the same R, G and B bytes.\<close>

definition alpha_only :: "nat list \<Rightarrow> nat list \<Rightarrow> bool" where
  "alpha_only d d' = (length d' = length d \<and> (\<forall>j<length d. j mod 4 \<noteq> 3 \<longrightarrow> d' ! j = d ! j))"

section \<open>Regions of uniform transparency\<close>

text \<open>
  Two pixel indices are 4-adjacent when they lie in the image and differ by one step in
  \<open>x\<close> or in \<open>y\<close>.  \<open>same_state\<close> links 4-adjacent pixels of equal mask value, and
  the region of a pixel is what these links reach from it.
\<close>

definition adjacent4 :: "nat \<Rightarrow> nat \<Rightarrow> nat \<Rightarrow> nat \<Rightarrow> bool" where
  "adjacent4 width height i j =
     (i < width * height \<and> j < width * height \<and>
      ((i div width = j div width \<and> (i mod width + 1 = j mod width \<or> j mod width + 1 = i mod width))
       \<or> (i mod width = j mod width \<and> (i div width + 1 = j div width \<or> j div width + 1 = i div width))))"

definition same_state :: "nat list \<Rightarrow> nat \<Rightarrow> nat \<Rightarrow> (nat \<times> nat) set" where
  "same_state transparentMask width height =
     {(i, j). adjacent4 width height i j \<and> transparentMask ! i = transparentMask ! j}"

definition region_of :: "nat list \<Rightarrow> nat \<Rightarrow> nat \<Rightarrow> nat \<Rightarrow> nat set" where
  "region_of transparentMask width height i =
     {j. (i, j) \<in> (same_state transparentMask width height)\<^sup>*}"

text \<open>
  What one round of the search adds (\<open>fresh\<close>), and the invariants of the inner and the
  outer loop of \<open>removeSmallRegions\<close>.
\<close>

definition cell_index :: "nat \<Rightarrow> int \<times> int \<Rightarrow> nat" where
  "cell_index w cell = nat (snd cell * int w + fst cell)"

definition cell_in :: "nat \<Rightarrow> nat \<Rightarrow> int \<times> int \<Rightarrow> bool" where
  "cell_in w h cell = in_image w h (fst cell) (snd cell)"

definition fresh :: "nat list \<Rightarrow> nat \<Rightarrow> nat \<Rightarrow> nat \<Rightarrow> bool list \<Rightarrow> (int \<times> int) list \<Rightarrow> nat set" where
  "fresh m w h v V cells =
     {b. \<exists>cell\<in>set cells. cell_in w h cell \<and> b = cell_index w cell \<and> \<not> js_get V b
           \<and> mask_equals m b v}"

definition edge_index :: "nat \<Rightarrow> nat \<Rightarrow> nat \<Rightarrow> bool" where
  "edge_index w h c = (c mod w = 0 \<or> int (c mod w) = int w - 1 \<or> c div w = 0
                       \<or> int (c div w) = int h - 1)"

definition closed_under :: "(nat \<times> nat) set \<Rightarrow> bool list \<Rightarrow> bool" where
  "closed_under S V = (\<forall>a b. js_get V a \<and> (a, b) \<in> S \<longrightarrow> js_get V b)"

definition bfs_inv ::
  "nat list \<Rightarrow> nat \<Rightarrow> nat \<Rightarrow> nat \<Rightarrow> bool list \<Rightarrow> nat list \<Rightarrow> bool list \<Rightarrow> nat list \<Rightarrow> bool \<Rightarrow> bool" where
  "bfs_inv m w h s V0 q V R touches =
     (set q \<union> set R \<subseteq> region_of m w h s \<and> s \<in> set q \<union> set R \<and> distinct (R @ q)
      \<and> (\<forall>i. js_get V i = (js_get V0 i \<or> i \<in> set q \<union> set R))
      \<and> (\<forall>c\<in>set R. \<forall>b. (c, b) \<in> same_state m w h \<longrightarrow> js_get V b)
      \<and> touches = (\<exists>c\<in>set R. edge_index w h c))"

text \<open>
  The rule of the post-processor for one pixel: its region has no pixel on the image
  border and is smaller than 200 (transparent) or 100 (opaque) pixels.
\<close>

definition small_inner_region :: "nat list \<Rightarrow> nat \<Rightarrow> nat \<Rightarrow> nat \<Rightarrow> bool" where
  "small_inner_region transparentMask width height i =
     (\<not> (\<exists>c. c \<in> region_of transparentMask width height i
              \<and> on_border width height (c mod width) (c div width))
      \<and> card (region_of transparentMask width height i)
          < (if transparentMask ! i = 1 then 200 else 100))"

definition flipped_alpha :: "nat list \<Rightarrow> nat list \<Rightarrow> nat \<Rightarrow> nat \<Rightarrow> nat \<Rightarrow> nat" where
  "flipped_alpha transparentMask data width height i =
     (if small_inner_region transparentMask width height i
      then (if transparentMask ! i = 1 then 255 else 0)
      else data ! (i * 4 + 3))"

definition outer_inv ::
  "nat list \<Rightarrow> nat \<Rightarrow> nat \<Rightarrow> nat list \<Rightarrow> bool list \<Rightarrow> nat list \<Rightarrow> bool" where
  "outer_inv m w h d0 V d =
     (closed_under (same_state m w h) V \<and> length d = length d0
      \<and> (\<forall>j<length d0. j mod 4 \<noteq> 3 \<longrightarrow> d ! j = d0 ! j)
      \<and> (\<forall>i<w * h. d ! (i * 4 + 3)
             = (if js_get V i then flipped_alpha m d0 w h i else d0 ! (i * 4 + 3))))"

section \<open>Concrete masks, colours and images\<close>

text \<open>
  The inputs at which the claims are evaluated: masks of 3x3 and 5x5 pixels, a list of
  three and a list of sixty sample colours, a 5x5 image with one skin-coloured pixel, the
  uniform skin-coloured 11x11 image, the 11x11 image whose only opaque pixel is the
  centre, and the 3x3 image whose only transparent pixel is the centre.
\<close>

definition mask3_centre :: "bool list" where
  "mask3_centre = [False, False, False, False, True, False, False, False, False]"

definition mask5_centre :: "bool list" where
  "mask5_centre = (replicate 25 False)[12 := True]"

definition corner3 :: "bool list" where
  "corner3 = [True, False, False, False, False, False, False, False, False]"

definition dot5 :: "bool list" where
  "dot5 = (replicate 25 False)[6 := True]"

definition centre5 :: "bool list" where
  "centre5 = (replicate 25 False)[12 := True]"

definition block5 :: "bool list" where
  "block5 = [False, False, False, False, False,
             False, True, True, False, False,
             False, True, True, False, False,
             False, False, False, False, False,
             False, False, False, False, False]"

definition inner5 :: "bool list" where
  "inner5 = [False, False, False, False, False,
             False, True, True, True, False,
             False, True, True, True, False,
             False, True, True, True, False,
             False, False, False, False, False]"

definition skin_dot_image :: "nat list" where
  "skin_dot_image = buffer_of (\<lambda>i. if i = 6 then (224, 172, 135, 255) else (0, 0, 255, 255)) 25"

definition split_colors :: "color list" where
  "split_colors = [rgba 101 100 101 255, rgba 100 101 100 255, rgba 80 84 69 255]"

definition stuck_colors :: "color list" where
  "stuck_colors = replicate 30 (rgba 0 0 0 255) @ replicate 30 (rgba 14 14 14 255)"

definition skin_image :: "nat list" where
  "skin_image = buffer_of (\<lambda>i. (224, 172, 135, 255)) (11 * 11)"

definition hole_image :: "nat list" where
  "hole_image = buffer_of (\<lambda>i. (0, 0, 255, if i = 60 then 255 else 0)) (11 * 11)"

definition pinhole_image :: "nat list" where
  "pinhole_image = buffer_of (\<lambda>i. (1, 2, 3, if i = 4 then 0 else 255)) (3 * 3)"

section \<open>Facts about the array model\<close>

lemma length_js_set: "length (js_set xs i v) = max (length xs) (Suc i)"
  by (auto simp: js_set_def)

lemma js_get_replicate: "js_get (replicate n b) i = (i < n \<and> b)"
  by (auto simp: js_get_def)

lemma inner_loop:
  assumes B: "\<And>st y x. body st y x = st\<lparr>result := js_set (result st) (y * w + x) (f (input_mask st) x y)\<rparr>"
  shows "input_mask (foldl (\<lambda>st x. body st y x) st xs) = input_mask st \<and>
         (\<forall>i. js_get (result (foldl (\<lambda>st x. body st y x) st xs)) i =
            (if \<exists>x\<in>set xs. i = y * w + x then f (input_mask st) (i - y * w) y else js_get (result st) i))"
proof (induction xs rule: rev_induct)
  case Nil
  show ?case by simp
next
  case (snoc x xs)
  then show ?case by (auto simp: B js_get_js_set)
qed

lemma outer_loop:
  assumes B: "\<And>st y x. body st y x = st\<lparr>result := js_set (result st) (y * w + x) (f (input_mask st) x y)\<rparr>"
    and X: "\<forall>x\<in>set xs. x < w"
  shows "input_mask (foldl (\<lambda>st y. foldl (\<lambda>st x. body st y x) st xs) st ys) = input_mask st \<and>
         (\<forall>i. js_get (result (foldl (\<lambda>st y. foldl (\<lambda>st x. body st y x) st xs) st ys)) i =
            (if i div w \<in> set ys \<and> i mod w \<in> set xs then f (input_mask st) (i mod w) (i div w) else js_get (result st) i))"
proof (induction ys rule: rev_induct)
  case Nil
  show ?case by simp
next
  case (snoc y ys)
  let ?st = "foldl (\<lambda>st y. foldl (\<lambda>st x. body st y x) st xs) st ys"
  have E: "\<And>i. (\<exists>x\<in>set xs. i = y * w + x) = (i div w = y \<and> i mod w \<in> set xs)"
  proof -
    fix i
    show "(\<exists>x\<in>set xs. i = y * w + x) = (i div w = y \<and> i mod w \<in> set xs)"
    proof
      assume "\<exists>x\<in>set xs. i = y * w + x"
      then obtain x where x: "x \<in> set xs" "i = y * w + x" by blast
      with X have "x < w" by blast
      with x show "i div w = y \<and> i mod w \<in> set xs" by simp
    next
      assume a: "i div w = y \<and> i mod w \<in> set xs"
      have "i = (i div w) * w + i mod w" by simp
      with a show "\<exists>x\<in>set xs. i = y * w + x" by metis
    qed
  qed
  have M: "\<And>i. i div w = y \<Longrightarrow> i - y * w = i mod w"
    by (metis add_diff_cancel_left' div_mult_mod_eq mult.commute)
  from inner_loop[OF B, of y ?st xs] snoc show ?case
    by (auto simp: E M)
qed

lemma interior_loop_char:
  assumes B: "\<And>st y x. body st y x = st\<lparr>result := js_set (result st) (y * w + x) (f (input_mask st) x y)\<rparr>"
  shows "input_mask (interior_loop body w h st) = input_mask st"
    and "js_get (result (interior_loop body w h st)) i =
            (if 1 \<le> i div w \<and> i div w + 1 < h \<and> 1 \<le> i mod w \<and> i mod w + 1 < w
             then f (input_mask st) (i mod w) (i div w) else js_get (result st) i)"
proof -
  have X: "\<forall>x\<in>set [1..<w - 1]. x < w" by auto
  from outer_loop[OF B X, of st "[1..<h - 1]"]
  show "input_mask (interior_loop body w h st) = input_mask st"
    and "js_get (result (interior_loop body w h st)) i =
            (if 1 \<le> i div w \<and> i div w + 1 < h \<and> 1 \<le> i mod w \<and> i mod w + 1 < w
             then f (input_mask st) (i mod w) (i div w) else js_get (result st) i)"
    unfolding interior_loop_def by (auto simp: less_diff_conv)
qed

lemma idx_in_range: "x < w \<Longrightarrow> y < h \<Longrightarrow> y * w + x < w * (h::nat)"
proof -
  assume x: "x < w" and y: "y < h"
  from x have "y * w + x < (Suc y) * w" by simp
  also have "\<dots> \<le> h * w" using y by (simp only: mult_le_mono1 Suc_leI)
  finally show "y * w + x < w * h" by (simp add: mult.commute)
qed

lemma inner_loop_length:
  fixes st :: morph_state
  assumes B: "\<And>st y x. body st y x = st\<lparr>result := js_set (result st) (y * w + x) (f (input_mask st) x y)\<rparr>"
    and L: "w * h \<le> length (result st)" and y: "y < h"
  shows "\<forall>x\<in>set xs. x < w \<Longrightarrow> length (result (foldl (\<lambda>st x. body st y x) st xs)) = length (result st)"
proof (induction xs rule: rev_induct)
  case Nil
  show ?case by simp
next
  case (snoc x xs)
  then have "x < w" by simp
  from idx_in_range[OF this y] L snoc show ?case by (simp add: B length_js_set)
qed

lemma interior_loop_length:
  fixes st :: morph_state
  assumes B: "\<And>st y x. body st y x = st\<lparr>result := js_set (result st) (y * w + x) (f (input_mask st) x y)\<rparr>"
    and L: "w * h \<le> length (result st)"
  shows "length (result (interior_loop body w h st)) = length (result st)"
proof -
  have "\<forall>y\<in>set ys. y < h \<Longrightarrow>
      length (result (foldl (\<lambda>st y. foldl (\<lambda>st x. body st y x) st [1..<w - 1]) st ys)) = length (result st)" for ys
  proof (induction ys rule: rev_induct)
    case Nil
    show ?case by simp
  next
    case (snoc y ys)
    let ?st = "foldl (\<lambda>st y. foldl (\<lambda>st x. body st y x) st [1..<w - 1]) st ys"
    from snoc have l: "w * h \<le> length (result ?st)" and y: "y < h" using L by auto
    have "\<forall>x\<in>set [1..<w - 1]. x < w" by auto
    from inner_loop_length[OF B l y this] snoc show ?case by simp
  qed
  moreover have "\<forall>y\<in>set [1..<h - 1]. y < h" by auto
  ultimately show ?thesis unfolding interior_loop_def by blast
qed

lemma js_get_int_nat: "js_get_int m (int n) = js_get m n"
  by (simp add: js_get_int_def)

lemma erode_window_nat:
  assumes "1 \<le> x" "1 \<le> y"
  shows "erode_window m w x y =
    (\<forall>a\<in>{0, 1, 2}. \<forall>b\<in>{0, 1, 2}. js_get m ((y - 1 + a) * w + (x - 1 + b)))"
proof -
  from assms obtain x' y' where xy: "x = Suc x'" "y = Suc y'"
    by (metis One_nat_def Suc_le_D)
  have "erode_window m w (Suc x') (Suc y') =
    (\<forall>a\<in>{0, 1, 2}. \<forall>b\<in>{0, 1, 2}. js_get_int m (int ((y' + a) * w + (x' + b))))"
    unfolding erode_window_def offsets3_def by (simp add: algebra_simps)
  then show ?thesis unfolding xy js_get_int_nat by simp
qed

lemma dilate_window_nat:
  assumes "1 \<le> x" "1 \<le> y"
  shows "dilate_window m w x y =
    (\<exists>a\<in>{0, 1, 2}. \<exists>b\<in>{0, 1, 2}. js_get m ((y - 1 + a) * w + (x - 1 + b)))"
proof -
  from assms obtain x' y' where xy: "x = Suc x'" "y = Suc y'"
    by (metis One_nat_def Suc_le_D)
  have "dilate_window m w (Suc x') (Suc y') =
    (\<exists>a\<in>{0, 1, 2}. \<exists>b\<in>{0, 1, 2}. js_get_int m (int ((y' + a) * w + (x' + b))))"
    unfolding dilate_window_def offsets3_def by (simp add: algebra_simps)
  then show ?thesis unfolding xy js_get_int_nat by simp
qed

lemma erode_body_form:
  "erode_body w st y x = st\<lparr>result := js_set (result st) (y * w + x) ((\<lambda>m x y. erode_window m w x y) (input_mask st) x y)\<rparr>"
  by (simp add: erode_body_def)

lemma dilate_body_form:
  "dilate_body w st y x = st\<lparr>result := js_set (result st) (y * w + x) ((\<lambda>m x y. dilate_window m w x y) (input_mask st) x y)\<rparr>"
  by (simp add: dilate_body_def)

lemma js_get_erode:
  "js_get (erode m w h) i =
     (inside 1 w h (i mod w) (i div w) \<and> erode_window m w (i mod w) (i div w))"
  unfolding erode_def erode_run_def
  by (auto simp: interior_loop_char(2)[OF erode_body_form] js_get_replicate inside_def)

lemma js_get_dilate:
  "js_get (dilate m w h) i =
     (if inside 1 w h (i mod w) (i div w) then dilate_window m w (i mod w) (i div w)
      else js_get m i)"
  unfolding dilate_def dilate_run_def
  by (auto simp: interior_loop_char(2)[OF dilate_body_form] inside_def)

lemma length_erode: "w * h \<le> length m \<Longrightarrow> length (erode m w h) = length m"
  unfolding erode_def erode_run_def
  by (simp add: interior_loop_length[OF erode_body_form])

lemma length_dilate: "w * h \<le> length m \<Longrightarrow> length (dilate m w h) = length m"
  unfolding dilate_def dilate_run_def
  by (simp add: interior_loop_length[OF dilate_body_form])

lemma input_mask_erode_run: "input_mask (erode_run m w h) = m"
  unfolding erode_run_def by (simp add: interior_loop_char(1)[OF erode_body_form])

lemma input_mask_dilate_run: "input_mask (dilate_run m w h) = m"
  unfolding dilate_run_def by (simp add: interior_loop_char(1)[OF dilate_body_form])

lemma coords: "x < w \<Longrightarrow> (y * w + x) mod w = x \<and> (y * w + x) div w = (y::nat)"
  by simp

lemma js_get_erode_xy:
  assumes "x < w"
  shows "js_get (erode m w h) (y * w + x) =
     (inside 1 w h x y \<and> (\<forall>a\<in>{0, 1, 2}. \<forall>b\<in>{0, 1, 2}. js_get m ((y - 1 + a) * w + (x - 1 + b))))"
proof (cases "inside 1 w h x y")
  case True
  then have "1 \<le> x" "1 \<le> y" by (auto simp: inside_def)
  from erode_window_nat[OF this] True assms show ?thesis
    by (simp only: js_get_erode coords simp_thms)
next
  case False
  with assms show ?thesis by (simp only: js_get_erode coords simp_thms)
qed

lemma js_get_dilate_xy:
  assumes "x < w"
  shows "js_get (dilate m w h) (y * w + x) =
     (if inside 1 w h x y then (\<exists>a\<in>{0, 1, 2}. \<exists>b\<in>{0, 1, 2}. js_get m ((y - 1 + a) * w + (x - 1 + b)))
      else js_get m (y * w + x))"
proof (cases "inside 1 w h x y")
  case True
  then have "1 \<le> x" "1 \<le> y" by (auto simp: inside_def)
  from dilate_window_nat[OF this] True assms show ?thesis
    by (simp only: js_get_dilate coords simp_thms if_True)
next
  case False
  with assms show ?thesis by (simp only: js_get_dilate coords simp_thms if_False)
qed

lemma count_true_card: "count_true m = card {i. i < length m \<and> js_get m i}"
  unfolding count_true_def js_get_def length_filter_conv_card by simp

lemma count_inside_card:
  "count_inside d m w h = card {i. i < w * h \<and> js_get m i \<and> inside d w h (i mod w) (i div w)}"
proof -
  have "{i. i < length [0..<w * h] \<and> js_get m ([0..<w * h] ! i) \<and>
            inside d w h ([0..<w * h] ! i mod w) ([0..<w * h] ! i div w)}
        = {i. i < w * h \<and> js_get m i \<and> inside d w h (i mod w) (i div w)}"
    by auto
  then show ?thesis unfolding count_inside_def length_filter_conv_card by simp
qed

lemma open_pointwise:
  assumes "js_get (dilate (erode m w h) w h) i"
  shows "js_get m i"
proof -
  let ?x = "i mod w" and ?y = "i div w"
  let ?E = "erode m w h"
  show ?thesis
  proof (cases "inside 1 w h ?x ?y")
    case False
    with assms have "js_get ?E i" by (simp add: js_get_dilate)
    with False show ?thesis by (simp add: js_get_erode)
  next
    case True
    then have xy: "1 \<le> ?x" "?x + 1 < w" "1 \<le> ?y" "?y + 1 < h" by (auto simp: inside_def)
    from assms True have "dilate_window ?E w ?x ?y" by (simp add: js_get_dilate)
    then obtain a b where ab: "a \<in> {0, 1, 2}" "b \<in> {0, 1, 2}"
        and E: "js_get ?E ((?y - 1 + a) * w + (?x - 1 + b))"
      unfolding dilate_window_nat[OF xy(1) xy(3)] by blast
    from ab xy have xb: "?x - 1 + b < w" by auto
    from E have I: "inside 1 w h (?x - 1 + b) (?y - 1 + a)"
      and W: "\<forall>a'\<in>{0, 1, 2}. \<forall>b'\<in>{0, 1, 2}. js_get m ((?y - 1 + a - 1 + a') * w + (?x - 1 + b - 1 + b'))"
      unfolding js_get_erode_xy[OF xb] by blast+
    from ab have "2 - a \<in> {0, 1, 2}" "2 - b \<in> {0, 1, 2}" by auto
    with W have "js_get m ((?y - 1 + a - 1 + (2 - a)) * w + (?x - 1 + b - 1 + (2 - b)))" by blast
    moreover from I ab xy have "?y - 1 + a - 1 + (2 - a) = ?y" "?x - 1 + b - 1 + (2 - b) = ?x"
      by (auto simp: inside_def)
    ultimately have "js_get m (?y * w + ?x)" by (simp only:)
    then show ?thesis by simp
  qed
qed

lemma close_pointwise:
  assumes m: "js_get m i" and I: "inside 2 w h (i mod w) (i div w)"
  shows "js_get (erode (dilate m w h) w h) i"
proof -
  let ?x = "i mod w" and ?y = "i div w"
  let ?D = "dilate m w h"
  from I have xy: "2 \<le> ?x" "?x + 2 < w" "2 \<le> ?y" "?y + 2 < h" by (auto simp: inside_def)
  then have I1: "inside 1 w h ?x ?y" and xy1: "1 \<le> ?x" "1 \<le> ?y" by (auto simp: inside_def)
  have "js_get ?D ((?y - 1 + a) * w + (?x - 1 + b))" if ab: "a \<in> {0, 1, 2}" "b \<in> {0, 1, 2}" for a b
  proof -
    from ab xy have xb: "?x - 1 + b < w" by auto
    from ab xy have J: "inside 1 w h (?x - 1 + b) (?y - 1 + a)" by (auto simp: inside_def)
    from ab have c: "2 - a \<in> {0, 1, 2}" "2 - b \<in> {0, 1, 2}" by auto
    from ab xy have e: "?y - 1 + a - 1 + (2 - a) = ?y" "?x - 1 + b - 1 + (2 - b) = ?x" by auto
    have "js_get m (?y * w + ?x)" using m by simp
    then have "js_get m ((?y - 1 + a - 1 + (2 - a)) * w + (?x - 1 + b - 1 + (2 - b)))"
      by (simp only: e)
    with c have "\<exists>a'\<in>{0, 1, 2}. \<exists>b'\<in>{0, 1, 2}. js_get m ((?y - 1 + a - 1 + a') * w + (?x - 1 + b - 1 + b'))"
      by blast
    with J show ?thesis unfolding js_get_dilate_xy[OF xb] by simp
  qed
  then have "erode_window ?D w ?x ?y" unfolding erode_window_nat[OF xy1] by blast
  with I1 show ?thesis by (simp add: js_get_erode)
qed

section \<open>Facts about the rounding of doubles\<close>

lemma exponent_bounds:
  assumes "v \<noteq> 0"
  shows "2 powi exponent v \<le> \<bar>v\<bar>" and "\<bar>v\<bar> < 2 powi (exponent v + 1)"
proof -
  have "2 powi exponent v \<le> \<bar>v\<bar> \<and> \<bar>v\<bar> < 2 powi (exponent v + 1)"
  proof (cases "1 \<le> \<bar>v\<bar>")
    case True
    define n where "n = nat \<lfloor>\<bar>v\<bar>\<rfloor>"
    define k where "k = floorlog 2 n"
    from True have n: "0 < n" by (simp add: n_def)
    from floorlog_bounds[OF n, of 2] have b: "2 ^ (k - 1) \<le> n" "n < 2 ^ k" by (simp_all add: k_def)
    from n have k: "0 < k" by (simp add: k_def floorlog_def)
    have e: "exponent v = int k - 1" using True by (simp add: exponent_def n_def k_def)
    have nv: "real n \<le> \<bar>v\<bar>" "\<bar>v\<bar> < real n + 1" using True by (simp_all add: n_def)
    have "(2::real) ^ (k - 1) \<le> real n" using of_nat_mono[OF b(1), where 'a = real] by simp
    moreover have "real n + 1 \<le> 2 ^ k" using of_nat_mono[of "Suc n" "2 ^ k", where 'a = real] b(2) by simp
    moreover have "2 powi (int k - 1) = (2::real) ^ (k - 1)" using k by (simp add: power_int_def nat_diff_distrib)
    moreover have "2 powi (int k - 1 + 1) = (2::real) ^ k" by (simp add: power_int_def)
    ultimately show ?thesis using nv unfolding e by linarith
  next
    case False
    define y where "y = 1 / \<bar>v\<bar>"
    define m where "m = nat (\<lceil>y\<rceil> - 1)"
    define k where "k = floorlog 2 m"
    from False assms have y: "1 < y" by (simp add: y_def)
    then have "2 \<le> \<lceil>y\<rceil>" by linarith
    then have m: "0 < m" by (simp add: m_def)
    from floorlog_bounds[OF m, of 2] have b: "2 ^ (k - 1) \<le> m" "m < 2 ^ k" by (simp_all add: k_def)
    from m have k: "0 < k" by (simp add: k_def floorlog_def)
    have e: "exponent v = - int k" using False by (simp add: exponent_def m_def k_def y_def)
    have my: "real m < y" "y \<le> real m + 1" using \<open>2 \<le> \<lceil>y\<rceil>\<close> unfolding m_def by linarith+
    have p1: "(2::real) ^ (k - 1) \<le> real m" using of_nat_mono[OF b(1), where 'a = real] by simp
    have p2: "real m + 1 \<le> 2 ^ k" using of_nat_mono[of "Suc m" "2 ^ k", where 'a = real] b(2) by simp
    have l: "y \<le> 2 ^ k" using my p2 by linarith
    have u: "2 ^ (k - 1) < y" using my p1 by linarith
    have v: "\<bar>v\<bar> = 1 / y" using assms by (simp add: y_def)
    have "2 powi (- int k) = 1 / (2::real) ^ k" by (simp add: power_int_def field_simps)
    moreover have "2 powi (- int k + 1) = 1 / (2::real) ^ (k - 1)" using k
      by (cases k) (simp_all add: power_int_def field_simps nat_diff_distrib)
    moreover have "1 / 2 ^ k \<le> 1 / y" using l y by (simp add: frac_le)
    moreover have "1 / y < 1 / 2 ^ (k - 1)" using u by (simp add: frac_less2)
    ultimately show ?thesis unfolding e v by simp
  qed
  then show "2 powi exponent v \<le> \<bar>v\<bar>" and "\<bar>v\<bar> < 2 powi (exponent v + 1)" by simp_all
qed


lemma round_even_of_int [simp]: "round_even (of_int n) = n"
  by (simp add: round_even_def)

lemma round_even_bounds: "\<lfloor>v\<rfloor> \<le> round_even v" "round_even v \<le> \<lfloor>v\<rfloor> + 1"
  by (simp_all add: round_even_def Let_def)

lemma round_even_mono:
  assumes "v \<le> w"
  shows "round_even v \<le> round_even w"
proof (cases "\<lfloor>v\<rfloor> = \<lfloor>w\<rfloor>")
  case True
  with assms show ?thesis by (simp add: round_even_def Let_def)
next
  case False
  with assms have "\<lfloor>v\<rfloor> + 1 \<le> \<lfloor>w\<rfloor>" using floor_mono[OF assms] by linarith
  with round_even_bounds(2)[of v] round_even_bounds(1)[of w] show ?thesis by linarith
qed

lemma round_even_uminus: "round_even (- v) = - round_even v"
proof (cases "v = of_int \<lfloor>v\<rfloor>")
  case True
  then obtain n where "v = of_int n" ..
  then show ?thesis by (simp flip: of_int_minus)
next
  case False
  then have f: "\<lfloor>- v\<rfloor> = - \<lfloor>v\<rfloor> - 1" by linarith
  show ?thesis unfolding round_even_def Let_def f by (auto simp: algebra_simps)
qed

lemma exponent_uminus [simp]: "exponent (- v) = exponent v"
  by (simp add: exponent_def)

lemma ulp_uminus [simp]: "ulp (- v) = ulp v"
  by (simp add: ulp_def)

lemma ulp_pos [simp]: "0 < ulp v"
  by (simp add: ulp_def)

lemma ulp_nonneg [simp]: "0 \<le> ulp v"
  by (simp add: ulp_def)

lemma round_even_0 [simp]: "round_even 0 = 0"
  by (simp add: round_even_def)

lemma fl_0 [simp]: "fl 0 = 0"
  by (simp add: fl_def)

lemma fl_uminus: "fl (- v) = - fl v"
  by (simp add: fl_def round_even_uminus)

lemma fl_nonneg: "0 \<le> v \<Longrightarrow> 0 \<le> fl v"
proof -
  assume "0 \<le> v"
  then have "0 \<le> v / ulp v" by (intro divide_nonneg_pos ulp_pos)
  from round_even_mono[OF this] show ?thesis by (simp add: fl_def)
qed

lemma exponent_mono:
  assumes "v \<noteq> 0" "\<bar>v\<bar> \<le> \<bar>w\<bar>"
  shows "exponent v \<le> exponent w"
proof (rule ccontr)
  assume "\<not> exponent v \<le> exponent w"
  then have "exponent w + 1 \<le> exponent v" by simp
  then have "(2::real) powi (exponent w + 1) \<le> 2 powi exponent v"
    by (intro power_int_increasing) simp_all
  moreover from assms have "w \<noteq> 0" by auto
  ultimately show False
    using exponent_bounds(1)[OF assms(1)] exponent_bounds(2)[OF \<open>w \<noteq> 0\<close>] assms(2) by linarith
qed

text \<open>
  The double of a positive number lies in the closed binade of that number, so the doubles of
  numbers from different binades are separated by a power of two.
\<close>

lemma fl_binade:
  assumes "0 < v"
  shows "2 powi (max (exponent v) (- 1022)) \<le> fl v \<or> exponent v < - 1022"
    and "fl v \<le> 2 powi (max (exponent v) (- 1022) + 1)"
proof -
  define e where "e = max (exponent v) (- 1022)"
  have u: "ulp v = 2 powi (e - 52)" by (simp add: ulp_def e_def)
  have v0: "v \<noteq> 0" "\<bar>v\<bar> = v" using assms by simp_all
  have s: "2 powi e = 2 ^ 52 * ulp v" "2 powi (e + 1) = 2 ^ 53 * ulp v"
    unfolding u by (simp_all add: power_int_diff power_int_add)
  have f: "fl v = of_int (round_even (v / ulp v)) * ulp v" using assms by (simp add: fl_def)
  have "v < 2 powi (exponent v + 1)" using exponent_bounds(2)[OF v0(1)] v0(2) by simp
  also have "\<dots> \<le> 2 powi (e + 1)" by (intro power_int_increasing) (simp_all add: e_def)
  finally have "v / ulp v \<le> of_int (2 ^ 53)" unfolding s by (simp add: field_simps)
  from round_even_mono[OF this] have "of_int (round_even (v / ulp v)) \<le> (2::real) ^ 53"
    unfolding round_even_of_int by (metis of_int_le_iff of_int_numeral of_int_power)
  then show "fl v \<le> 2 powi (max (exponent v) (- 1022) + 1)"
    unfolding f s e_def[symmetric] by simp
  show "2 powi (max (exponent v) (- 1022)) \<le> fl v \<or> exponent v < - 1022"
  proof (cases "exponent v < - 1022")
    case False
    then have "e = exponent v" by (simp add: e_def)
    with exponent_bounds(1)[OF v0(1)] v0(2) have "2 powi e \<le> v" by simp
    then have "of_int (2 ^ 52) \<le> v / ulp v" unfolding s by (simp add: field_simps)
    from round_even_mono[OF this] have "(2::real) ^ 52 \<le> of_int (round_even (v / ulp v))"
      unfolding round_even_of_int by (metis of_int_le_iff of_int_numeral of_int_power)
    then show ?thesis unfolding f s e_def[symmetric] by simp
  qed simp
qed

lemma fl_mono_pos:
  assumes "0 < v" "v \<le> w"
  shows "fl v \<le> fl w"
proof -
  define e where "e = max (exponent v) (- 1022)"
  define e' where "e' = max (exponent w) (- 1022)"
  have w: "0 < w" using assms by simp
  have "exponent v \<le> exponent w" using assms by (intro exponent_mono) simp_all
  then have le: "e \<le> e'" by (simp add: e_def e'_def)
  show ?thesis
  proof (cases "e = e'")
    case True
    then have u: "ulp v = ulp w" by (simp add: ulp_def e_def e'_def)
    have "v / ulp w \<le> w / ulp w" using assms ulp_pos[of w] by (intro divide_right_mono) simp_all
    from round_even_mono[OF this] show ?thesis
      using assms by (simp add: fl_def u)
  next
    case False
    with le have lt: "e + 1 \<le> e'" by simp
    then have "\<not> exponent w < - 1022" by (simp add: e_def e'_def)
    with fl_binade(1)[OF w] have "2 powi e' \<le> fl w" by (simp add: e'_def)
    moreover have "fl v \<le> 2 powi (e + 1)" using fl_binade(2)[OF assms(1)] by (simp add: e_def)
    moreover have "(2::real) powi (e + 1) \<le> 2 powi e'" using lt by (intro power_int_increasing) simp_all
    ultimately show ?thesis by linarith
  qed
qed

lemma fl_mono:
  assumes "v \<le> w"
  shows "fl v \<le> fl w"
proof -
  consider "0 < v" | "v \<le> 0" "0 \<le> w" | "w < 0" by linarith
  then show ?thesis
  proof cases
    case 1
    then show ?thesis using assms by (rule fl_mono_pos)
  next
    case 2
    from fl_nonneg[OF 2(2)] fl_nonneg[of "- v"] 2(1) show ?thesis by (simp add: fl_uminus)
  next
    case 3
    then have "0 < - w" "- w \<le> - v" using assms by simp_all
    from fl_mono_pos[OF this] show ?thesis by (simp add: fl_uminus)
  qed
qed


lemma exponent_of_int:
  assumes "n \<noteq> 0" "\<bar>n\<bar> < 2 ^ 53"
  shows "0 \<le> exponent (of_int n)" "exponent (of_int n) \<le> 52"
proof -
  define v :: real where "v = of_int n"
  have v: "v \<noteq> 0" "1 \<le> \<bar>v\<bar>" "\<bar>v\<bar> < 2 ^ 53"
    using assms by (simp_all add: v_def flip: of_int_abs)
  show "0 \<le> exponent (of_int n)"
  proof (rule ccontr)
    assume "\<not> 0 \<le> exponent (of_int n)"
    then have "exponent v + 1 \<le> 0" by (simp add: v_def)
    then have "(2::real) powi (exponent v + 1) \<le> 2 powi 0" by (intro power_int_increasing) simp_all
    with exponent_bounds(2)[OF v(1)] v(2) show False by simp
  qed
  show "exponent (of_int n) \<le> 52"
  proof (rule ccontr)
    assume "\<not> exponent (of_int n) \<le> 52"
    then have "53 \<le> exponent v" by (simp add: v_def)
    then have "(2::real) powi 53 \<le> 2 powi exponent v" by (intro power_int_increasing) simp_all
    with exponent_bounds(1)[OF v(1)] v(3) show False by simp
  qed
qed

lemma fl_of_int:
  assumes "\<bar>n\<bar> < 2 ^ 53"
  shows "fl (of_int n) = of_int n"
proof (cases "n = 0")
  case False
  define k where "k = nat (52 - exponent (of_int n))"
  from exponent_of_int[OF False assms]
  have u: "ulp (of_int n) = 1 / 2 ^ k"
    by (simp add: ulp_def k_def power_int_def field_simps)
  have "real_of_int n / ulp (of_int n) = of_int (n * 2 ^ k)" by (simp add: u)
  then have "round_even (real_of_int n / ulp (of_int n)) = n * 2 ^ k"
    by (simp only: round_even_of_int)
  then show ?thesis using False by (simp add: fl_def) (simp add: u)
qed simp

lemma fl_of_nat: "n < 2 ^ 53 \<Longrightarrow> fl (real n) = real n"
  using fl_of_int[of "int n"] by (simp add: nat_less_iff flip: of_nat_power)

lemma js_round_fl_of_int: "\<bar>n\<bar> < 2 ^ 53 \<Longrightarrow> \<lfloor>fl (of_int n) + 1 / 2\<rfloor> = n"
  by (simp add: fl_of_int)

lemma fl_le: "v \<le> real_of_int n \<Longrightarrow> \<bar>n\<bar> < 2 ^ 53 \<Longrightarrow> fl v \<le> real_of_int n"
  using fl_mono[of v "of_int n"] by (simp add: fl_of_int)

lemma fl_ge: "real_of_int n \<le> v \<Longrightarrow> \<bar>n\<bar> < 2 ^ 53 \<Longrightarrow> real_of_int n \<le> fl v"
  using fl_mono[of "of_int n" v] by (simp add: fl_of_int)

lemma fl_sqrt_less:
  assumes "0 \<le> u" "s \<le> u\<^sup>2" "fl u < t"
  shows "fl (sqrt s) < t"
proof -
  have "sqrt s \<le> u" using assms(1,2) by (rule real_le_lsqrt)
  from fl_mono[OF this] assms(3) show ?thesis by simp
qed

lemma fl_sqrt_ge:
  assumes "l\<^sup>2 \<le> s" "t \<le> fl l"
  shows "t \<le> fl (sqrt s)"
proof -
  have "l \<le> sqrt s" using assms(1) by (rule real_le_rsqrt)
  from fl_mono[OF this] assms(2) show ?thesis by simp
qed

lemma round_even_error: "\<bar>real_of_int (round_even t) - t\<bar> \<le> 1 / 2"
proof -
  have "real_of_int \<lfloor>t\<rfloor> \<le> t" "t < real_of_int \<lfloor>t\<rfloor> + 1" by linarith+
  then show ?thesis by (auto simp: round_even_def Let_def)
qed

lemma fl_error:
  assumes "v \<noteq> 0" "- 1022 \<le> exponent v"
  shows "\<bar>fl v - v\<bar> \<le> \<bar>v\<bar> / 2 ^ 53"
proof -
  have u: "ulp v = 2 powi exponent v / 2 ^ 52"
    using assms(2) by (simp add: ulp_def max_def power_int_diff)
  have "ulp v \<noteq> 0" by (simp add: ulp_def)
  then have "fl v - v = (real_of_int (round_even (v / ulp v)) - v / ulp v) * ulp v"
    using assms(1) by (simp add: fl_def algebra_simps)
  then have "\<bar>fl v - v\<bar> = \<bar>real_of_int (round_even (v / ulp v)) - v / ulp v\<bar> * ulp v"
    using ulp_pos[of v] by (simp add: abs_mult)
  also have "\<dots> \<le> 1 / 2 * ulp v"
    by (rule mult_right_mono[OF round_even_error]) simp
  also have "\<dots> \<le> 1 / 2 * (\<bar>v\<bar> / 2 ^ 52)"
    unfolding u using exponent_bounds(1)[OF assms(1)] by (simp add: divide_right_mono)
  finally show ?thesis by simp
qed

text \<open>
  \<open>Math.floor(i / width)\<close>, the row of the pixel with index \<open>i\<close>, is \<open>i div width\<close>:
  the rounding of the quotient does not reach the next integer.
\<close>

lemma floor_fl_div:
  assumes "0 < w" "w < 2 ^ 53" "i < 2 ^ 53"
  shows "\<lfloor>fl (real i / real w)\<rfloor> = int (i div w)"
proof (cases "i = 0")
  case True
  then show ?thesis by simp
next
  case False
  define v where "v = real i / real w"
  define q where "q = i div w"
  have i: "real i = real q * real w + real (i mod w)"
    unfolding q_def by (metis of_nat_add of_nat_mult div_mult_mod_eq)
  have m: "real (i mod w) \<le> real w - 1" using assms(1) mod_less_divisor[OF assms(1), of i]
    by (metis Suc_leI of_nat_Suc of_nat_le_iff le_diff_eq add.commute)
  have w: "0 < real w" "real w < 2 ^ 53" using assms(1,2)
    by simp (metis assms(2) of_nat_less_iff of_nat_numeral of_nat_power)
  have ir: "real i < 2 ^ 53" by (metis assms(3) of_nat_less_iff of_nat_numeral of_nat_power)
  have vpos: "0 < v" using False assms(1) by (simp add: v_def)
  have vs: "v = real q + real (i mod w) / real w"
    unfolding v_def i using w(1) by (simp add: add_divide_distrib)
  have vq: "real q \<le> v" unfolding vs by simp
  have "real (i mod w) / real w \<le> (real w - 1) / real w"
    using m w(1) by (simp add: divide_right_mono)
  also have "\<dots> = 1 - 1 / real w" using w(1) by (simp add: diff_divide_distrib)
  finally have vu: "v \<le> real q + 1 - 1 / real w" unfolding vs by simp
  have "1 / 2 ^ 53 < v"
  proof -
    have "1 / 2 ^ 53 < 1 / real w" using w by (simp add: field_simps)
    also have "\<dots> \<le> v" unfolding v_def using False w(1) by (simp add: divide_right_mono)
    finally show ?thesis .
  qed
  have e: "- 1022 \<le> exponent v"
  proof (rule ccontr)
    assume "\<not> - 1022 \<le> exponent v"
    then have "exponent v + 1 \<le> - 53" by simp
    then have "(2::real) powi (exponent v + 1) \<le> 2 powi (- 53)"
      by (intro power_int_increasing) simp_all
    with exponent_bounds(2)[of v] vpos \<open>1 / 2 ^ 53 < v\<close> show False
      by (simp add: power_int_minus field_simps)
  qed
  have "\<bar>fl v - v\<bar> \<le> \<bar>v\<bar> / 2 ^ 53" by (rule fl_error) (use vpos e in simp_all)
  with vpos have "fl v \<le> v + v / 2 ^ 53" by linarith
  moreover have "v / 2 ^ 53 < 1 / real w"
    unfolding v_def using ir w(1) by (simp add: field_simps)
  ultimately have "fl v < real q + 1" using vu by linarith
  moreover have "real_of_int (int q) \<le> fl v"
  proof (rule fl_ge)
    show "real_of_int (int q) \<le> v" using vq by simp
    have "q \<le> i" by (simp add: q_def)
    with assms(3) show "\<bar>int q\<bar> < 2 ^ 53" by (simp add: nat_less_iff flip: of_nat_power) 
  qed
  ultimately show ?thesis unfolding v_def[symmetric] q_def[symmetric] by (simp add: floor_eq_iff)
qed

text \<open>The rules that evaluate \<open>fl\<close> at a rational number.\<close>

lemmas fl_eval = fl_def ulp_def exponent_def round_even_def compute_floorlog Let_def

section \<open>Facts about pixel buffers\<close>

lemma buffer_of_Suc:
  "buffer_of f (Suc n) = buffer_of f n @ (case f n of (r, g, b, a) \<Rightarrow> [r, g, b, a])"
  by (simp add: buffer_of_def)

lemma length_buffer_of: "length (buffer_of f n) = 4 * n"
  by (induction n) (auto simp: buffer_of_Suc buffer_of_def split: prod.splits)

lemma buffer_of_nth:
  assumes "i < n" "k < 4"
  shows "buffer_of f n ! (4 * i + k) = (case f i of (r, g, b, a) \<Rightarrow> [r, g, b, a]) ! k"
  using assms
proof (induction n)
  case 0
  then show ?case by simp
next
  case (Suc n)
  show ?case
  proof (cases "i < n")
    case True
    then have "4 * i + k < length (buffer_of f n)" using Suc.prems by (simp add: length_buffer_of)
    then show ?thesis using Suc True by (simp add: buffer_of_Suc nth_append)
  next
    case False
    with Suc.prems have "i = n" by simp
    then show ?thesis by (simp add: buffer_of_Suc nth_append length_buffer_of)
  qed
qed

lemma pixel_at_buffer_of:
  "pixel_at (buffer_of f n) (int i) =
     (if i < n then case f i of (r, g, b, a) \<Rightarrow>
         Some \<lparr>red = int r, green = int g, blue = int b, alpha = int a\<rparr>
      else None)"
proof (cases "i < n")
  case True
  have n: "nat (int i * 4) = 4 * i + 0" "nat (int i * 4 + 1) = 4 * i + 1"
     "nat (int i * 4 + 2) = 4 * i + 2" "nat (int i * 4 + 3) = 4 * i + 3"
    by (simp_all add: nat_add_distrib nat_mult_distrib)
  obtain r g b a where f: "f i = (r, g, b, a)" by (cases "f i") auto
  have b: "buffer_of f n ! (4 * i + 0) = r" "buffer_of f n ! (4 * i + 1) = g"
    "buffer_of f n ! (4 * i + 2) = b" "buffer_of f n ! (4 * i + 3) = a"
    using buffer_of_nth[OF True, of 0 f] buffer_of_nth[OF True, of 1 f]
      buffer_of_nth[OF True, of 2 f] buffer_of_nth[OF True, of 3 f] f by simp_all
  from True show ?thesis
    unfolding pixel_at_def Let_def byte_at_def n length_buffer_of b
    by (simp add: f)
next
  case False
  then have "\<not> nat (int i * 4 + 3) < 4 * n" by (simp add: nat_add_distrib nat_mult_distrib)
  with False show ?thesis
    unfolding pixel_at_def Let_def byte_at_def length_buffer_of
    by (auto split: option.splits)
qed

lemma pixel_at_negative: "i < 0 \<Longrightarrow> pixel_at data i = None"
  unfolding pixel_at_def Let_def byte_at_def by simp

lemma skin_tone_example: "skin_rule 224 172 135"
  by code_simp

lemma blue_not_skin: "\<not> skin_rule 0 0 255"
  unfolding skin_rule_def by (simp split: prod.splits)

lemma rawSkinMask_dot: "rawSkinMask skin_dot_image 5 5 = dot5"
proof -
  have "skin_pixel skin_dot_image i = (i = 6)" if "i < 25" for i
    using that unfolding skin_pixel_def skin_dot_image_def pixel_at_buffer_of
    by (simp add: skin_tone_example blue_not_skin)
  then have "map (skin_pixel skin_dot_image) [0..<25] = map (\<lambda>i. i = 6) [0..<25]"
    by simp
  also have "\<dots> = dot5" by code_simp
  finally show ?thesis by (simp add: rawSkinMask_def)
qed

lemma dot5_steps:
  "dilate dot5 5 5 = block5" "erode block5 5 5 = replicate 25 False"
  "dilate (replicate 25 False) 5 5 = replicate 25 False"
  "erode (replicate 25 False) 5 5 = replicate 25 False"
  "dilate block5 5 5 = inner5" "erode inner5 5 5 = centre5"
  "dilate centre5 5 5 = inner5" "dilate inner5 5 5 = inner5"
  by code_simp+

section \<open>Loops that write a mask\<close>

lemma write_inner:
  "js_get (foldl (\<lambda>res x. if c x then js_set res (y * w + x) (v x) else res) r xs) i =
     (if \<exists>x\<in>set xs. c x \<and> i = y * w + x then v (i - y * w) else js_get r i)"
proof (induction xs rule: rev_induct)
  case Nil
  show ?case by simp
next
  case (snoc x xs)
  then show ?case by (auto simp: js_get_js_set)
qed

lemma write_loop:
  assumes X: "\<forall>x\<in>set xs. x < w"
  shows "js_get (foldl (\<lambda>res y. foldl (\<lambda>res x.
            if c x y then js_set res (y * w + x) (v x y) else res) res xs) r ys) i =
     (if i div w \<in> set ys \<and> i mod w \<in> set xs \<and> c (i mod w) (i div w)
      then v (i mod w) (i div w) else js_get r i)"
proof (induction ys rule: rev_induct)
  case Nil
  show ?case by simp
next
  case (snoc y ys)
  have E: "(\<exists>x\<in>set xs. c x y \<and> i = y * w + x) = (i div w = y \<and> i mod w \<in> set xs \<and> c (i mod w) y)"
  proof
    assume "\<exists>x\<in>set xs. c x y \<and> i = y * w + x"
    then obtain x where x: "x \<in> set xs" "c x y" "i = y * w + x" by blast
    with X have "x < w" by blast
    with x show "i div w = y \<and> i mod w \<in> set xs \<and> c (i mod w) y" by simp
  next
    assume a: "i div w = y \<and> i mod w \<in> set xs \<and> c (i mod w) y"
    have "i = (i div w) * w + i mod w" by simp
    with a show "\<exists>x\<in>set xs. c x y \<and> i = y * w + x" by metis
  qed
  have M: "i div w = y \<Longrightarrow> i - y * w = i mod w"
    by (metis add_diff_cancel_left' div_mult_mod_eq)
  show ?case
    using snoc by (auto simp: write_inner[where c="\<lambda>x. c x y" and v="\<lambda>x. v x y"] E M)
qed

lemma write_loop_length:
  assumes L: "w * h \<le> length r" and X: "\<forall>x\<in>set xs. x < w" and Y: "\<forall>y\<in>set ys. y < h"
  shows "length (foldl (\<lambda>res y. foldl (\<lambda>res x.
            if c x y then js_set res (y * w + x) (v x y) else res) res xs) r ys) = length r"
  using Y
proof (induction ys rule: rev_induct)
  case Nil
  show ?case by simp
next
  case (snoc y ys)
  let ?r = "foldl (\<lambda>res y. foldl (\<lambda>res x.
            if c x y then js_set res (y * w + x) (v x y) else res) res xs) r ys"
  from snoc have l: "length ?r = length r" and y: "y < h" by auto
  have "\<forall>x\<in>set zs. x < w \<Longrightarrow> length (foldl (\<lambda>res x.
            if c x y then js_set res (y * w + x) (v x y) else res) ?r zs) = length r" for zs
  proof (induction zs rule: rev_induct)
    case Nil
    show ?case by (simp add: l)
  next
    case (snoc x zs)
    then have "x < w" by simp
    from idx_in_range[OF this y] L snoc show ?case by (simp add: length_js_set)
  qed
  from this[OF X] show ?case by simp
qed

lemma js_get_ensureEdgesRemoved:
  "js_get (ensureEdgesRemoved m w h) i =
     (if i < w * h \<and> near_edge 5 w h (i mod w) (i div w) then True else js_get m i)"
proof -
  have X: "\<forall>x\<in>set [0..<w]. x < w" by simp
  have R: "i < w * h \<longleftrightarrow> i div w < h \<and> i mod w < w"
  proof (cases "w = 0")
    case True
    then show ?thesis by simp
  next
    case False
    then show ?thesis by (simp add: div_less_iff_less_mult mult.commute)
  qed
  show ?thesis
    unfolding ensureEdgesRemoved_def write_loop[OF X]
    using R by (auto simp: near_edge_def)
qed

lemma length_ensureEdgesRemoved:
  "w * h \<le> length m \<Longrightarrow> length (ensureEdgesRemoved m w h) = length m"
  unfolding ensureEdgesRemoved_def by (rule write_loop_length) auto

lemma length_refineCompositeMask:
  "length (refineCompositeMask initialMask skinMask clothingMask imageData width height) = width * height"
  unfolding refineCompositeMask_def Let_def
  by (simp add: length_ensureEdgesRemoved length_dilate length_erode)

lemma near_edge_refineCompositeMask:
  assumes "i < width * height" "near_edge 5 width height (i mod width) (i div width)"
  shows "js_get (refineCompositeMask initialMask skinMask clothingMask imageData width height) i"
  using assms unfolding refineCompositeMask_def Let_def
  by (simp add: js_get_ensureEdgesRemoved)

section \<open>Facts about the clusterer\<close>

lemma distance_rounded_square:
  "perceptualColorDistance c d = fl (sqrt (rounded_square c d))"
  by (simp add: perceptualColorDistance_def rounded_square_def Let_def)

lemma distance_self: "perceptualColorDistance c c = 0"
  by (simp add: perceptualColorDistance_def)

lemma distance_lessI:
  assumes "0 \<le> u" "rounded_square c d \<le> u\<^sup>2" "fl u < t"
  shows "perceptualColorDistance c d < t"
  unfolding distance_rounded_square using assms by (rule fl_sqrt_less)

lemma distance_geI:
  assumes "l\<^sup>2 \<le> rounded_square c d" "t \<le> fl l"
  shows "\<not> perceptualColorDistance c d < t"
  unfolding distance_rounded_square using fl_sqrt_ge[OF assms] by simp

lemma running_average_same:
  assumes "0 < n" "\<bar>v\<bar> < 2 ^ 53"
  shows "running_average v n v = v"
proof -
  from assms(1) have "v * int (n - 1) + v = v * int n"
    by (cases n) (simp_all add: algebra_simps)
  then have "real_of_int (v * int (n - 1) + v) / real n = real_of_int v"
    using assms(1) by simp
  then show ?thesis
    unfolding running_average_def js_round_def using js_round_fl_of_int[OF assms(2)] by simp
qed

lemma average_in_same: "0 < n \<Longrightarrow> byte_color c \<Longrightarrow> average_in c n c = c"
  by (simp add: average_in_def byte_color_def running_average_same)

lemma near_running_replicate: "byte_color c \<Longrightarrow> near_running c n (replicate k c)"
  by (induction k arbitrary: n) (simp_all add: distance_self average_in_same)

lemma running_representative_replicate:
  "byte_color c \<Longrightarrow> running_representative c n (replicate k c) = c"
  by (induction k arbitrary: n) (simp_all add: average_in_same)

lemma near_running_append:
  "near_running rep n (xs @ ys) \<longleftrightarrow>
     near_running rep n xs
     \<and> near_running (running_representative rep n xs) (n + length xs) ys"
  by (induction xs arbitrary: rep n) simp_all

lemma running_representative_append:
  "running_representative rep n (xs @ ys) =
     running_representative (running_representative rep n xs) (n + length xs) ys"
  by (induction xs arbitrary: rep n) simp_all

lemma merge_color_average:
  "merge_color grp c =
     \<lparr>representative = average_in (representative grp) (length (colors grp) + 1) c,
      colors = colors grp @ [c], count = count grp + 1\<rparr>"
  by (simp add: merge_color_def average_in_def Let_def)

lemma group_running:
  assumes "near_running rep (length ms) cs"
  shows "foldl (\<lambda>groups c. add_color c groups) [\<lparr>representative = rep, colors = ms, count = k\<rparr>] cs
         = [\<lparr>representative = running_representative rep (length ms) cs,
             colors = ms @ cs, count = k + length cs\<rparr>]"
  using assms
proof (induction cs arbitrary: rep ms k)
  case Nil
  then show ?case by simp
next
  case (Cons c cs)
  from Cons.prems have d: "perceptualColorDistance c rep < 20"
    and n: "near_running (average_in rep (length ms + 1) c) (length (ms @ [c])) cs" by simp_all
  from Cons.IH[OF n, of "k + 1"] d show ?case
    by (simp add: merge_color_average)
qed

lemma valid_colors_all:
  "\<forall>c\<in>set cs. alpha c > 0 \<Longrightarrow> valid_colors (map Some cs) = cs"
  by (induction cs) (simp_all add: valid_colors_def)

lemma valid_colors_none:
  "\<forall>s\<in>set samples. (case s of None \<Rightarrow> True | Some c \<Rightarrow> alpha c \<le> 0) \<Longrightarrow> valid_colors samples = []"
  by (induction samples) (auto simp: valid_colors_def split: option.splits)

lemma share_all: "fl 0.08 \<le> fl 1"
  by (rule fl_mono) simp

lemma dominant_of_single_group:
  assumes v: "valid_colors samples = c0 # cs" and n: "near_running c0 1 cs"
  shows "findDominantColors samples = [running_representative c0 1 cs]"
proof -
  have "group_colors (c0 # cs) =
      [\<lparr>representative = running_representative c0 (length [c0]) cs,
        colors = [c0] @ cs, count = 1 + length cs\<rparr>]"
    unfolding group_colors_def using group_running[of c0 "[c0]" cs 1] n by simp
  moreover have "fl (real (1 + length cs) / real (length (c0 # cs))) \<ge> fl 0.08"
  proof -
    have "real (1 + length cs) / real (length (c0 # cs)) = 1" by simp
    then show ?thesis using share_all by (simp only:)
  qed
  ultimately show ?thesis
    unfolding findDominantColors_def Let_def v by (simp del: of_nat_Suc of_nat_add)
qed


lemma rounded_square_commute: "rounded_square c d = rounded_square d c"
proof -
  have "fl (fl (w * real_of_int (a - b)) * real_of_int (a - b))
      = fl (fl (w * real_of_int (b - a)) * real_of_int (b - a))" for w a b
  proof -
    have "real_of_int (a - b) = - real_of_int (b - a)" by simp
    then show ?thesis by (simp only: mult_minus_right fl_uminus mult_minus_left minus_minus)
  qed
  then show ?thesis by (simp add: rounded_square_def Let_def)
qed

lemma split_squares:
  "rounded_square (rgba 100 101 100 255) (rgba 101 100 101 255) \<le> 1\<^sup>2"
  "rounded_square (rgba 80 84 69 255) (rgba 101 100 101 255) \<le> (1998 / 100)\<^sup>2"
  "rounded_square (rgba 80 84 69 255) (rgba 100 101 100 255) \<le> (1998 / 100)\<^sup>2"
  "(204 / 10)\<^sup>2 \<le> rounded_square (rgba 80 84 69 255) (rgba 101 101 101 255)"
  by (simp_all add: rounded_square_def rgba_def fl_eval power2_eq_square)

lemma split_bounds: "fl 1 < 20" "fl (1998 / 100) < 20" "20 \<le> fl (204 / 10)"
  by (simp_all add: fl_eval)

lemma split_averages:
  "running_average 101 (Suc (Suc 0)) 100 = 101" "running_average 100 (Suc (Suc 0)) 101 = 101"
  "running_average 255 (Suc (Suc 0)) 255 = 255"
  by (simp_all add: running_average_def js_round_def fl_eval)

lemma split_shares: "fl 0.08 \<le> fl (2 / 3)" "fl 0.08 \<le> fl (1 / 3)"
  by (rule fl_mono, simp)+


lemma split_distances:
  "perceptualColorDistance (rgba 100 101 100 255) (rgba 101 100 101 255) < 20"
  "perceptualColorDistance (rgba 101 100 101 255) (rgba 100 101 100 255) < 20"
  "perceptualColorDistance (rgba 80 84 69 255) (rgba 101 100 101 255) < 20"
  "perceptualColorDistance (rgba 101 100 101 255) (rgba 80 84 69 255) < 20"
  "perceptualColorDistance (rgba 80 84 69 255) (rgba 100 101 100 255) < 20"
  "perceptualColorDistance (rgba 100 101 100 255) (rgba 80 84 69 255) < 20"
  "\<not> perceptualColorDistance (rgba 80 84 69 255) (rgba 101 101 101 255) < 20"
proof -
  show "perceptualColorDistance (rgba 100 101 100 255) (rgba 101 100 101 255) < 20"
    by (rule distance_lessI[OF _ split_squares(1) split_bounds(1)]) simp
  show "perceptualColorDistance (rgba 101 100 101 255) (rgba 100 101 100 255) < 20"
    by (rule distance_lessI[OF _ split_squares(1)[unfolded rounded_square_commute[of "rgba 100 101 100 255"]] split_bounds(1)]) simp
  show "perceptualColorDistance (rgba 80 84 69 255) (rgba 101 100 101 255) < 20"
    by (rule distance_lessI[OF _ split_squares(2) split_bounds(2)]) simp
  show "perceptualColorDistance (rgba 101 100 101 255) (rgba 80 84 69 255) < 20"
    by (rule distance_lessI[OF _ split_squares(2)[unfolded rounded_square_commute[of "rgba 80 84 69 255"]] split_bounds(2)]) simp
  show "perceptualColorDistance (rgba 80 84 69 255) (rgba 100 101 100 255) < 20"
    by (rule distance_lessI[OF _ split_squares(3) split_bounds(2)]) simp
  show "perceptualColorDistance (rgba 100 101 100 255) (rgba 80 84 69 255) < 20"
    by (rule distance_lessI[OF _ split_squares(3)[unfolded rounded_square_commute[of "rgba 80 84 69 255"]] split_bounds(2)]) simp
  show "\<not> perceptualColorDistance (rgba 80 84 69 255) (rgba 101 101 101 255) < 20"
    by (rule distance_geI[OF split_squares(4) split_bounds(3)])
qed

lemma split_colors_pairwise: "pairwise_within split_colors"
  by (simp add: pairwise_within_def split_colors_def distance_self split_distances)

lemma split_colors_groups:
  "findDominantColors (map Some split_colors) = [rgba 101 101 101 255, rgba 80 84 69 255]"
proof -
  have m: "merge_color \<lparr>representative = rgba 101 100 101 255, colors = [rgba 101 100 101 255], count = Suc 0\<rparr>
             (rgba 100 101 100 255)
         = \<lparr>representative = rgba 101 101 101 255,
            colors = [rgba 101 100 101 255, rgba 100 101 100 255], count = 2\<rparr>"
    by (simp add: merge_color_def Let_def rgba_def split_averages)
  have g: "group_colors split_colors =
      [\<lparr>representative = rgba 101 101 101 255,
         colors = [rgba 101 100 101 255, rgba 100 101 100 255], count = 2\<rparr>,
       \<lparr>representative = rgba 80 84 69 255, colors = [rgba 80 84 69 255], count = 1\<rparr>]"
    by (simp add: group_colors_def split_colors_def split_distances m)
  have v: "valid_colors (map Some split_colors) = split_colors"
    by (rule valid_colors_all) (simp add: split_colors_def rgba_def)
  have l: "length split_colors = 3" by (simp add: split_colors_def)
  show ?thesis
    unfolding findDominantColors_def Let_def v g l using split_shares
    by (simp add: split_colors_def)
qed

lemma stuck_distance: "perceptualColorDistance (rgba 14 14 14 255) (rgba 0 0 0 255) < 20"
proof (rule distance_lessI)
  show "rounded_square (rgba 14 14 14 255) (rgba 0 0 0 255) \<le> 14\<^sup>2"
    by (simp add: rounded_square_def rgba_def fl_eval)
  show "fl 14 < 20" using fl_of_int[of 14] by simp
qed simp

lemma stuck_distance': "perceptualColorDistance (rgba 0 0 0 255) (rgba 14 14 14 255) < 20"
  using stuck_distance
  by (simp add: distance_rounded_square rounded_square_commute[of "rgba 0 0 0 255"])

lemma stuck_average:
  assumes "28 \<le> n"
  shows "average_in (rgba 0 0 0 255) (Suc n) (rgba 14 14 14 255) = rgba 0 0 0 255"
proof -
  have h: "fl (14 / 29) < 1 / 2" by (simp add: fl_eval)
  have "14 / real (Suc n) \<le> 14 / 29" using assms by (intro divide_left_mono) simp_all
  from fl_mono[OF this] h have "fl (14 / real (Suc n)) < 1 / 2" by linarith
  moreover have "0 \<le> fl (14 / real (Suc n))" by (rule fl_nonneg) simp
  ultimately have "\<lfloor>fl (14 / real (Suc n)) + 1 / 2\<rfloor> = 0" by linarith
  then have z: "running_average 0 (Suc n) 14 = 0"
    unfolding running_average_def js_round_def by simp
  have a: "running_average 255 (Suc n) 255 = 255"
    by (rule running_average_same) simp_all
  show ?thesis by (simp add: average_in_def rgba_def z a)
qed

lemma stuck_running:
  assumes "28 \<le> n"
  shows "near_running (rgba 0 0 0 255) n (replicate k (rgba 14 14 14 255))
       \<and> running_representative (rgba 0 0 0 255) n (replicate k (rgba 14 14 14 255))
           = rgba 0 0 0 255"
  using assms
  by (induction k arbitrary: n) (simp_all add: stuck_distance stuck_average)

lemma stuck_colors_pairwise: "pairwise_within stuck_colors"
proof -
  have s: "set stuck_colors = {rgba 0 0 0 255, rgba 14 14 14 255}"
    by (auto simp: stuck_colors_def)
  have "perceptualColorDistance c d < 20" if "c \<in> set stuck_colors" "d \<in> set stuck_colors" for c d
    using that unfolding s
    by (elim insertE emptyE) (simp_all add: distance_self stuck_distance stuck_distance')
  then show ?thesis by (simp add: pairwise_within_def list_all_iff)
qed

lemma stuck_colors_groups: "findDominantColors (map Some stuck_colors) = [rgba 0 0 0 255]"
proof -
  have b: "byte_color (rgba 0 0 0 255)" by (simp add: byte_color_def rgba_def)
  have "replicate (Suc 29) (rgba 0 0 0 255) = rgba 0 0 0 255 # replicate 29 (rgba 0 0 0 255)"
    by (rule replicate_Suc)
  then have s: "stuck_colors
         = rgba 0 0 0 255 # (replicate 29 (rgba 0 0 0 255) @ replicate 30 (rgba 14 14 14 255))"
    by (simp add: stuck_colors_def)
  have "\<forall>c\<in>set stuck_colors. alpha c > 0" by (simp add: stuck_colors_def rgba_def)
  from valid_colors_all[OF this] have v: "valid_colors (map Some stuck_colors)
         = rgba 0 0 0 255 # (replicate 29 (rgba 0 0 0 255) @ replicate 30 (rgba 14 14 14 255))"
    using s by simp
  have n: "near_running (rgba 0 0 0 255) 1
             (replicate 29 (rgba 0 0 0 255) @ replicate 30 (rgba 14 14 14 255))"
    using stuck_running[of 30 30] near_running_replicate[OF b]
    by (simp add: near_running_append running_representative_replicate[OF b])
  have r: "running_representative (rgba 0 0 0 255) 1
             (replicate 29 (rgba 0 0 0 255) @ replicate 30 (rgba 14 14 14 255)) = rgba 0 0 0 255"
    using stuck_running[of 30 30]
    by (simp add: running_representative_append running_representative_replicate[OF b])
  from dominant_of_single_group[OF v n] r show ?thesis by simp
qed

lemma stuck_colors_average:
  "channel_average red stuck_colors = 7" "channel_average green stuck_colors = 7"
  "channel_average blue stuck_colors = 7"
  by (simp_all add: channel_average_def stuck_colors_def rgba_def sum_list_replicate)

section \<open>Masks on regions of the image\<close>

lemma coversI: "(\<And>x y. x < w \<Longrightarrow> y < h \<Longrightarrow> P x y \<Longrightarrow> js_get m (y * w + x)) \<Longrightarrow> covers m w h P"
  by (simp add: covers_def)

lemma coversD: "covers m w h P \<Longrightarrow> x < w \<Longrightarrow> y < h \<Longrightarrow> P x y \<Longrightarrow> js_get m (y * w + x)"
  by (simp add: covers_def)

lemma avoidsI: "(\<And>x y. x < w \<Longrightarrow> y < h \<Longrightarrow> P x y \<Longrightarrow> \<not> js_get m (y * w + x)) \<Longrightarrow> avoids m w h P"
  by (simp add: avoids_def)

lemma avoidsD: "avoids m w h P \<Longrightarrow> x < w \<Longrightarrow> y < h \<Longrightarrow> P x y \<Longrightarrow> \<not> js_get m (y * w + x)"
  by (simp add: avoids_def)

lemma covers_weaken: "covers m w h P \<Longrightarrow> (\<And>x y. Q x y \<Longrightarrow> P x y) \<Longrightarrow> covers m w h Q"
  by (auto simp: covers_def)

lemma avoids_weaken: "avoids m w h P \<Longrightarrow> (\<And>x y. Q x y \<Longrightarrow> P x y) \<Longrightarrow> avoids m w h Q"
  by (auto simp: avoids_def)

lemma window_in_range:
  assumes "inside 1 w h x y" "a \<in> {0, 1, 2}" "b \<in> {0, 1, 2}"
  shows "x - 1 + b < w" "y - 1 + a < h"
  using assms by (auto simp: inside_def)

lemma window_inside:
  assumes "inside (Suc d) w h x y" "a \<in> {0, 1, 2}" "b \<in> {0, 1, 2}"
  shows "inside d w h (x - 1 + b) (y - 1 + a)"
  using assms by (auto simp: inside_def)

lemma inside_mono: "inside (Suc d) w h x y \<Longrightarrow> inside d w h x y"
  by (auto simp: inside_def)

lemma window_centre: "1 \<le> x \<Longrightarrow> 1 \<le> y \<Longrightarrow> (y - 1 + 1) * w + (x - 1 + 1) = y * w + (x::nat)"
  by simp

lemma covers_dilate:
  assumes "covers m w h P"
  shows "covers (dilate m w h) w h P"
proof (rule coversI)
  fix x y assume x: "x < w" and y: "y < h" and P: "P x y"
  from coversD[OF assms x y P] have c: "js_get m (y * w + x)" .
  show "js_get (dilate m w h) (y * w + x)"
  proof (cases "inside 1 w h x y")
    case True
    then have "1 \<le> x" "1 \<le> y" by (auto simp: inside_def)
    from window_centre[OF this, of w] c
    have "js_get m ((y - 1 + 1) * w + (x - 1 + 1))" by simp
    then have "\<exists>a\<in>{0, 1, 2}. \<exists>b\<in>{0, 1, 2}. js_get m ((y - 1 + a) * w + (x - 1 + b))" by blast
    with True show ?thesis by (simp only: js_get_dilate_xy[OF x] if_True)
  next
    case False
    with c show ?thesis by (simp only: js_get_dilate_xy[OF x] if_False)
  qed
qed

lemma covers_erode:
  assumes "covers m w h (inside d w h)"
  shows "covers (erode m w h) w h (inside (Suc d) w h)"
proof (rule coversI)
  fix x y assume x: "x < w" and y: "y < h" and I: "inside (Suc d) w h x y"
  then have I1: "inside 1 w h x y" by (auto simp: inside_def)
  have "js_get m ((y - 1 + a) * w + (x - 1 + b))" if "a \<in> {0, 1, 2}" "b \<in> {0, 1, 2}" for a b
    using coversD[OF assms window_in_range[OF I1 that] window_inside[OF I that]] .
  then have "\<forall>a\<in>{0, 1, 2}. \<forall>b\<in>{0, 1, 2}. js_get m ((y - 1 + a) * w + (x - 1 + b))" by blast
  with I1 show "js_get (erode m w h) (y * w + x)" by (simp only: js_get_erode_xy[OF x] simp_thms)
qed

lemma avoids_erode:
  assumes "avoids m w h P"
  shows "avoids (erode m w h) w h P"
proof (rule avoidsI)
  fix x y assume x: "x < w" and y: "y < h" and P: "P x y"
  from avoidsD[OF assms x y P] have c: "\<not> js_get m (y * w + x)" .
  show "\<not> js_get (erode m w h) (y * w + x)"
  proof
    assume "js_get (erode m w h) (y * w + x)"
    then have I: "inside 1 w h x y"
      and W: "\<forall>a\<in>{0, 1, 2}. \<forall>b\<in>{0, 1, 2}. js_get m ((y - 1 + a) * w + (x - 1 + b))"
      unfolding js_get_erode_xy[OF x] by blast+
    from I have "1 \<le> x" "1 \<le> y" by (auto simp: inside_def)
    from window_centre[OF this, of w] W have "js_get m (y * w + x)"
      by (metis insertI1 insertI2)
    with c show False ..
  qed
qed

lemma avoids_dilate:
  assumes "avoids m w h (inside d w h)"
  shows "avoids (dilate m w h) w h (inside (Suc d) w h)"
proof (rule avoidsI)
  fix x y assume x: "x < w" and y: "y < h" and I: "inside (Suc d) w h x y"
  then have I1: "inside 1 w h x y" by (auto simp: inside_def)
  have "\<not> js_get m ((y - 1 + a) * w + (x - 1 + b))" if "a \<in> {0, 1, 2}" "b \<in> {0, 1, 2}" for a b
    using avoidsD[OF assms window_in_range[OF I1 that] window_inside[OF I that]] .
  then have "\<not> (\<exists>a\<in>{0, 1, 2}. \<exists>b\<in>{0, 1, 2}. js_get m ((y - 1 + a) * w + (x - 1 + b)))" by blast
  with I1 show "\<not> js_get (dilate m w h) (y * w + x)"
    by (simp only: js_get_dilate_xy[OF x] if_True simp_thms)
qed

lemma avoids_all_dilate:
  assumes "avoids m w h (\<lambda>x y. True)"
  shows "avoids (dilate m w h) w h (\<lambda>x y. True)"
proof (rule avoidsI)
  fix x y assume x: "x < w" and y: "y < h"
  show "\<not> js_get (dilate m w h) (y * w + x)"
  proof (cases "inside 1 w h x y")
    case True
    have "\<not> js_get m ((y - 1 + a) * w + (x - 1 + b))" if "a \<in> {0, 1, 2}" "b \<in> {0, 1, 2}" for a b
      using avoidsD[OF assms window_in_range[OF True that]] by simp
    then have "\<not> (\<exists>a\<in>{0, 1, 2}. \<exists>b\<in>{0, 1, 2}. js_get m ((y - 1 + a) * w + (x - 1 + b)))" by blast
    with True show ?thesis by (simp only: js_get_dilate_xy[OF x] if_True simp_thms)
  next
    case False
    with avoidsD[OF assms x y] show ?thesis by (simp only: js_get_dilate_xy[OF x] if_False) simp
  qed
qed

lemma index_split: "i < w * h \<Longrightarrow> i mod w < w \<and> i div w < h \<and> (i div w) * w + i mod w = (i::nat)"
  by (metis div_mult_mod_eq less_mult_imp_div_less mod_less_divisor mult.commute mult_0
      not_gr_zero not_less_zero)

lemma covers_all_eq:
  assumes "covers m w h (\<lambda>x y. True)" "length m = w * h"
  shows "m = replicate (w * h) True"
proof (rule nth_equalityI)
  show "length m = length (replicate (w * h) True)" using assms by simp
next
  fix i assume "i < length m"
  then have i: "i < w * h" using assms by simp
  from index_split[OF i] coversD[OF assms(1), of "i mod w" "i div w"]
  have "js_get m i" by simp
  with i show "m ! i = replicate (w * h) True ! i" by (simp add: js_get_def)
qed

lemma avoids_all_eq:
  assumes "avoids m w h (\<lambda>x y. True)" "length m = w * h"
  shows "m = replicate (w * h) False"
proof (rule nth_equalityI)
  show "length m = length (replicate (w * h) False)" using assms by simp
next
  fix i assume "i < length m"
  then have i: "i < w * h" using assms by simp
  from index_split[OF i] avoidsD[OF assms(1), of "i mod w" "i div w"]
  have "\<not> js_get m i" by simp
  with i assms show "m ! i = replicate (w * h) False ! i" by (simp add: js_get_def)
qed

lemma covers_replicate: "covers (replicate (w * h) True) w h P"
  by (auto simp: covers_def js_get_replicate idx_in_range)

lemma avoids_replicate: "avoids (replicate n False) w h P"
  by (auto simp: avoids_def js_get_replicate)

lemma floodFill_visit_full:
  assumes "\<forall>i<w * h. js_get res i"
  shows "floodFill_visit w h (q, res) nb = (q, res)"
proof (cases nb)
  case (Pair nx ny)
  show ?thesis
  proof (cases "in_image w h nx ny")
    case True
    from in_image_index[OF this] assms have "js_get res (nat (ny * int w + nx))" by simp
    with Pair show ?thesis by (simp add: floodFill_visit_def)
  next
    case False
    with Pair show ?thesis by (simp add: floodFill_visit_def)
  qed
qed

lemma floodFill_loop_full:
  assumes "\<forall>i<w * h. js_get res i"
  shows "floodFill_loop w h q res = res"
proof (induction q)
  case Nil
  show ?case by simp
next
  case (Cons idx q)
  have "foldl (floodFill_visit w h) (q, res) (neighbors4 (int (idx mod w)) (int (idx div w))) = (q, res)"
    by (simp add: neighbors4_def floodFill_visit_full[OF assms])
  with Cons show ?case by simp
qed

lemma floodFillBackground_full:
  "floodFillBackground (replicate (w * h) True) w h = replicate (w * h) True"
  unfolding floodFillBackground_def
  by (rule floodFill_loop_full) (simp add: js_get_replicate)

lemma js_get_int_replicate_False: "\<not> js_get_int (replicate n False) i"
  by (simp add: js_get_int_def js_get_replicate)

lemma floodFillBackground_empty:
  "floodFillBackground (replicate n False) w h = replicate n False"
proof -
  have "floodFill_seeds (replicate n False) w h = []"
    by (simp add: floodFill_seeds_def js_get_replicate js_get_int_replicate_False)
  then show ?thesis by (simp add: floodFillBackground_def)
qed

lemma detectSkinTones_chain: "detectSkinTones data w h = cleanup_chain (rawSkinMask data w h) w h"
  by (simp add: detectSkinTones_def cleanup_chain_def)

lemma detectClothing_chain: "detectClothing data w h = cleanup_chain (rawClothingMask data w h) w h"
  by (simp add: detectClothing_def cleanup_chain_def)

lemma covers_inside0: "covers m w h (\<lambda>x y. True) \<Longrightarrow> covers m w h (inside 0 w h)"
  by (auto simp: covers_def)

lemma cleanup_chain_covers:
  assumes "covers m w h (\<lambda>x y. True)"
  shows "covers (cleanup_chain m w h) w h (inside 2 w h)"
proof -
  have "covers (dilate m w h) w h (inside 0 w h)"
    using assms by (intro covers_inside0 covers_dilate)
  then have "covers (erode (dilate m w h) w h) w h (inside (Suc 0) w h)"
    by (rule covers_erode)
  then have "covers (dilate (dilate (erode (dilate m w h) w h) w h) w h) w h (inside (Suc 0) w h)"
    by (intro covers_dilate)
  then have "covers (cleanup_chain m w h) w h (inside (Suc (Suc 0)) w h)"
    unfolding cleanup_chain_def by (rule covers_erode)
  then show ?thesis by (simp add: numeral_2_eq_2)
qed

lemma cleanup_chain_avoids:
  assumes "avoids m w h (\<lambda>x y. True)"
  shows "avoids (cleanup_chain m w h) w h (\<lambda>x y. True)"
  unfolding cleanup_chain_def
  using assms by (intro avoids_erode avoids_all_dilate)

lemma length_cleanup_chain: "w * h \<le> length m \<Longrightarrow> length (cleanup_chain m w h) = length m"
  by (simp add: cleanup_chain_def length_erode length_dilate)

lemma refineCompositeMask_chain:
  "refineCompositeMask im sm cm data w h =
     final_chain (map (composite_pixel (floodFillBackground im w h) sm cm w h) [0..<w * h]) w h"
  by (simp add: refineCompositeMask_def final_chain_def Let_def)

lemma length_final_chain: "w * h \<le> length m \<Longrightarrow> length (final_chain m w h) = length m"
  by (simp add: final_chain_def length_erode length_dilate length_ensureEdgesRemoved)

lemma js_get_final_chain_xy:
  assumes "x < w" "y < h"
  shows "js_get (final_chain m w h) (y * w + x) =
     (near_edge 5 w h x y \<or> js_get (dilate (erode (erode (dilate m w h) w h) w h) w h) (y * w + x))"
  using assms idx_in_range[OF assms]
  by (auto simp: final_chain_def js_get_ensureEdgesRemoved)

lemma not_near_edge_inside: "x < w \<Longrightarrow> y < h \<Longrightarrow> \<not> near_edge d w h x y \<Longrightarrow> inside d w h x y"
  by (auto simp: near_edge_def inside_def)

lemma inside_not_near_edge: "inside d w h x y \<Longrightarrow> \<not> near_edge d w h x y"
  by (auto simp: near_edge_def inside_def)

lemma inside_le: "inside d w h x y \<Longrightarrow> e \<le> d \<Longrightarrow> inside e w h x y"
  by (auto simp: inside_def)

lemma final_chain_covers:
  assumes "covers m w h (\<lambda>x y. True)"
  shows "covers (final_chain m w h) w h (\<lambda>x y. True)"
proof -
  have "covers (dilate m w h) w h (inside 0 w h)"
    using assms by (intro covers_inside0 covers_dilate)
  then have "covers (erode (erode (dilate m w h) w h) w h) w h (inside (Suc (Suc 0)) w h)"
    by (intro covers_erode)
  then have D: "covers (dilate (erode (erode (dilate m w h) w h) w h) w h) w h (inside 2 w h)"
    by (intro covers_dilate) (simp add: numeral_2_eq_2)
  show ?thesis
  proof (rule coversI)
    fix x y assume x: "x < w" and y: "y < h"
    show "js_get (final_chain m w h) (y * w + x)"
    proof (cases "near_edge 5 w h x y")
      case True
      then show ?thesis by (simp add: js_get_final_chain_xy[OF x y])
    next
      case False
      from not_near_edge_inside[OF x y this] have "inside 2 w h x y" by (rule inside_le) simp
      from coversD[OF D x y this] show ?thesis by (simp add: js_get_final_chain_xy[OF x y])
    qed
  qed
qed

lemma final_chain_avoids:
  assumes "avoids m w h (inside 2 w h)"
  shows "avoids (final_chain m w h) w h (inside 5 w h)"
proof -
  have "avoids m w h (inside (Suc (Suc 0)) w h)" using assms by (simp add: numeral_2_eq_2)
  then have "avoids (dilate m w h) w h (inside (Suc (Suc (Suc 0))) w h)" by (rule avoids_dilate)
  then have "avoids (erode (erode (dilate m w h) w h) w h) w h (inside (Suc (Suc (Suc 0))) w h)"
    by (intro avoids_erode)
  then have D: "avoids (dilate (erode (erode (dilate m w h) w h) w h) w h) w h
                  (inside (Suc (Suc (Suc (Suc 0)))) w h)"
    by (rule avoids_dilate)
  show ?thesis
  proof (rule avoidsI)
    fix x y assume x: "x < w" and y: "y < h" and I: "inside 5 w h x y"
    then have "inside (Suc (Suc (Suc (Suc 0)))) w h x y" by (auto simp: inside_def)
    from avoidsD[OF D x y this] inside_not_near_edge[OF I]
    show "\<not> js_get (final_chain m w h) (y * w + x)" by (simp add: js_get_final_chain_xy[OF x y])
  qed
qed

section \<open>Images of one colour\<close>

lemma pixel_at_buffer_of_int:
  "pixel_at (buffer_of f n) j =
     (if 0 \<le> j \<and> nat j < n then case f (nat j) of (r, g, b, a) \<Rightarrow>
         Some \<lparr>red = int r, green = int g, blue = int b, alpha = int a\<rparr>
      else None)"
proof (cases "0 \<le> j")
  case True
  then have "j = int (nat j)" by simp
  then show ?thesis using pixel_at_buffer_of[of f n "nat j"] True by metis
next
  case False
  then show ?thesis by (simp add: pixel_at_negative)
qed

lemma window_cells_in_image:
  "cell \<in> set (window_cells k w h x y) \<Longrightarrow> in_image w h (fst cell) (snd cell)"
  by (auto simp: window_cells_def split: if_splits)

lemma in_image_nonneg: "in_image w h nx ny \<Longrightarrow> 0 \<le> ny * int w + nx"
  by (auto simp: in_image_def)

text \<open>Buffers in which every pixel has the same red, green and blue.\<close>

lemma flat_getPixelColor:
  assumes "in_image w h nx ny"
  shows "\<exists>a. getPixelColor (buffer_of (\<lambda>i. (r, g, b, al i)) (w * h)) nx ny w
           = Some \<lparr>red = int r, green = int g, blue = int b, alpha = a\<rparr>"
  using in_image_index[OF assms] in_image_nonneg[OF assms]
  by (simp add: getPixelColor_def pixel_at_buffer_of_int)

lemma byte_at_buffer_of:
  assumes "k < 4"
  shows "byte_at (buffer_of f n) (j * 4 + int k) =
     (if 0 \<le> j \<and> nat j < n
      then Some ((case f (nat j) of (r, g, b, a) \<Rightarrow> [r, g, b, a]) ! k) else None)"
proof (cases "0 \<le> j \<and> nat j < n")
  case True
  then have "nat (j * 4 + int k) = 4 * nat j + k" by (simp add: nat_add_distrib nat_mult_distrib)
  moreover have "4 * nat j + k < 4 * n" using True assms by simp
  ultimately show ?thesis
    using True buffer_of_nth[of "nat j" n k f] assms
    by (simp add: byte_at_def length_buffer_of)
next
  case False
  then have "j * 4 + int k < 0 \<or> 4 * n \<le> nat (j * 4 + int k)" using assms by auto
  then show ?thesis using False by (auto simp: byte_at_def length_buffer_of)
qed

lemma getPixelBrightness_buffer_of:
  "getPixelBrightness (buffer_of (\<lambda>i. (r, g, b, al i)) n) nx ny w =
     (if 0 \<le> ny * int w + nx \<and> nat (ny * int w + nx) < n
      then Some (fl (real_of_int (int r + int g + int b) / 3)) else None)"
  using byte_at_buffer_of[of 0 "\<lambda>i. (r, g, b, al i)" n "ny * int w + nx"]
        byte_at_buffer_of[of 1 "\<lambda>i. (r, g, b, al i)" n "ny * int w + nx"]
        byte_at_buffer_of[of 2 "\<lambda>i. (r, g, b, al i)" n "ny * int w + nx"]
  by (simp add: getPixelBrightness_def Let_def)

lemma flat_getPixelBrightness:
  assumes "in_image w h nx ny"
  shows "getPixelBrightness (buffer_of (\<lambda>i. (r, g, b, al i)) (w * h)) nx ny w
           = Some (fl (real_of_int (int r + int g + int b) / 3))"
  using in_image_index[OF assms] in_image_nonneg[OF assms]
  by (simp add: getPixelBrightness_buffer_of)

lemma distance_same_rgb:
  "perceptualColorDistance \<lparr>red = r, green = g, blue = b, alpha = a\<rparr>
     \<lparr>red = r, green = g, blue = b, alpha = a'\<rparr> = 0"
  by (simp add: perceptualColorDistance_def)

lemma sum_of_zeros: "foldl (\<lambda>acc colorDiff. fl (acc + colorDiff)) 0 (map (\<lambda>_. 0) xs) = 0"
  by (induction xs) simp_all

lemma those_all_Some: "those (map (\<lambda>x. Some (f x)) xs) = Some (map f xs)"
  by (induction xs) simp_all

lemma flat_not_textured:
  "\<not> isTexturedRegion i (buffer_of (\<lambda>i. (r, g, b, al i)) (w * h)) w h"
proof -
  let ?data = "buffer_of (\<lambda>i. (r, g, b, al i)) (w * h)"
  let ?cells = "window_cells 2 w h (i mod w) (i div w)"
  show ?thesis
  proof (cases "getPixelColor ?data (int (i mod w)) (int (i div w)) w")
    case None
    then show ?thesis by (simp add: isTexturedRegion_def Let_def)
  next
    case (Some cc)
    then obtain a where cc: "cc = \<lparr>red = int r, green = int g, blue = int b, alpha = a\<rparr>"
      by (auto simp: getPixelColor_def pixel_at_buffer_of_int split: if_splits)
    have "map (\<lambda>(nx, ny). map_option (perceptualColorDistance cc) (getPixelColor ?data nx ny w)) ?cells
        = map (\<lambda>cell. Some ((\<lambda>_. 0) cell)) ?cells"
    proof (rule map_cong[OF refl])
      fix cell assume "cell \<in> set ?cells"
      from window_cells_in_image[OF this]
      obtain a' where "getPixelColor ?data (fst cell) (snd cell) w
           = Some \<lparr>red = int r, green = int g, blue = int b, alpha = a'\<rparr>"
        using flat_getPixelColor by blast
      then show "(case cell of (nx, ny) \<Rightarrow>
          map_option (perceptualColorDistance cc) (getPixelColor ?data nx ny w)) = Some 0"
        by (cases cell) (auto simp: cc distance_same_rgb)
    qed
    then have "those (map (\<lambda>(nx, ny). map_option (perceptualColorDistance cc)
                 (getPixelColor ?data nx ny w)) ?cells) = Some (map (\<lambda>_. 0) ?cells)"
      by (simp only: those_all_Some)
    with Some show ?thesis by (simp add: isTexturedRegion_def Let_def sum_of_zeros)
  qed
qed

lemma flat_not_high_contrast:
  "\<not> isHighContrastArea i (buffer_of (\<lambda>i. (r, g, b, al i)) (w * h)) w h"
proof -
  let ?data = "buffer_of (\<lambda>i. (r, g, b, al i)) (w * h)"
  let ?cells = "window_cells 2 w h (i mod w) (i div w)"
  show ?thesis
  proof (cases "getPixelBrightness ?data (int (i mod w)) (int (i div w)) w")
    case None
    then show ?thesis by (simp add: isHighContrastArea_def Let_def)
  next
    case (Some cb)
    then have cb: "cb = fl (real_of_int (int r + int g + int b) / 3)"
      by (auto simp: getPixelBrightness_buffer_of split: if_splits)
    have "filter (\<lambda>(nx, ny). case getPixelBrightness ?data nx ny w of
                    None \<Rightarrow> False
                  | Some neighborBrightness \<Rightarrow> (\<bar>fl (cb - neighborBrightness)\<bar> > 50)) ?cells = []"
    proof -
      have "\<not> (case cell of (nx, ny) \<Rightarrow> case getPixelBrightness ?data nx ny w of
                    None \<Rightarrow> False
                  | Some neighborBrightness \<Rightarrow> (\<bar>fl (cb - neighborBrightness)\<bar> > 50))"
        if "cell \<in> set ?cells" for cell
        using flat_getPixelBrightness[OF window_cells_in_image[OF that], of r g b al]
        by (cases cell) (auto simp: cb)
      then show ?thesis by (simp add: filter_empty_conv)
    qed
    with Some show ?thesis by (simp add: isHighContrastArea_def Let_def)
  qed
qed

lemma flat_not_clothing:
  assumes "real_of_int (int r + int g + int b) / 3 \<le> 180"
  shows "\<not> clothing_pixel (buffer_of (\<lambda>i. (r, g, b, al i)) (w * h)) w h i"
proof -
  have "fl (real_of_int (int r + int g + int b) / 3) \<le> real_of_int 180"
    by (rule fl_le) (use assms in simp_all)
  then have "\<not> fl (real_of_int (int r + int g + int b) / 3) > 180" by simp
  then show ?thesis
    by (auto simp: clothing_pixel_def Let_def pixel_at_buffer_of flat_not_textured
        flat_not_high_contrast split: option.splits if_splits)
qed

lemma flat_not_skin:
  assumes "\<not> skin_rule (int r) (int g) (int b)"
  shows "\<not> skin_pixel (buffer_of (\<lambda>i. (r, g, b, al i)) n) i"
  using assms by (auto simp: skin_pixel_def pixel_at_buffer_of split: option.splits if_splits)

lemma map_const_upt: "(\<And>i. i < n \<Longrightarrow> f i = v) \<Longrightarrow> map f [0..<n] = replicate n v"
  by (rule nth_equalityI) simp_all

lemma flat_detectSkinTones:
  assumes "\<not> skin_rule (int r) (int g) (int b)"
  shows "detectSkinTones (buffer_of (\<lambda>i. (r, g, b, al i)) (w * h)) w h = replicate (w * h) False"
proof -
  have raw: "rawSkinMask (buffer_of (\<lambda>i. (r, g, b, al i)) (w * h)) w h = replicate (w * h) False"
    unfolding rawSkinMask_def by (rule map_const_upt) (simp add: flat_not_skin[OF assms])
  show ?thesis
    unfolding detectSkinTones_chain raw
    by (rule avoids_all_eq) (simp_all add: cleanup_chain_avoids avoids_replicate length_cleanup_chain)
qed

lemma flat_detectClothing:
  assumes "real_of_int (int r + int g + int b) / 3 \<le> 180"
  shows "detectClothing (buffer_of (\<lambda>i. (r, g, b, al i)) (w * h)) w h = replicate (w * h) False"
proof -
  have raw: "rawClothingMask (buffer_of (\<lambda>i. (r, g, b, al i)) (w * h)) w h = replicate (w * h) False"
    unfolding rawClothingMask_def by (rule map_const_upt) (simp add: flat_not_clothing[OF assms])
  show ?thesis
    unfolding detectClothing_chain raw
    by (rule avoids_all_eq) (simp_all add: cleanup_chain_avoids avoids_replicate length_cleanup_chain)
qed

lemma valid_colors_one_colour:
  assumes "\<forall>s\<in>set xs. s = None \<or> s = Some c" "alpha c > 0"
  shows "valid_colors xs = replicate (length (filter (\<lambda>s. s \<noteq> None) xs)) c"
  using assms(1)
proof (induction xs)
  case Nil
  show ?case by (simp add: valid_colors_def)
next
  case (Cons s xs)
  then have IH: "List.map_filter (\<lambda>s. case s of None \<Rightarrow> None
                          | Some c \<Rightarrow> if alpha c > 0 then Some c else None) xs
      = replicate (length (filter (\<lambda>s. s \<noteq> None) xs)) c"
    by (simp add: valid_colors_def)
  from Cons.prems have "s = None \<or> s = Some c" by simp
  then show ?case using IH assms(2) by (auto simp: valid_colors_def)
qed

lemma dominant_one_colour:
  assumes all: "\<forall>s\<in>set xs. s = None \<or> s = Some c" and a: "alpha c > 0" and some: "Some c \<in> set xs"
    and b: "byte_color c"
  shows "findDominantColors xs = [c]"
proof -
  from some have "filter (\<lambda>s. s \<noteq> None) xs \<noteq> []" by (auto simp: filter_empty_conv)
  then obtain k where k: "length (filter (\<lambda>s. s \<noteq> None) xs) = Suc k"
    by (cases "filter (\<lambda>s. s \<noteq> None) xs") auto
  have v: "valid_colors xs = c # replicate k c"
    using valid_colors_one_colour[OF all a] k by simp
  from dominant_of_single_group[OF v near_running_replicate[OF b]]
  show ?thesis by (simp add: running_representative_replicate[OF b])
qed

lemma set_sample_band:
  "set (sample_band depth pick) = {pick i d | i d. i < samplesPerEdge \<and> d < depth}"
  by (fastforce simp: sample_band_def)

lemma edgeDepth_pos: "0 < edgeDepth w h"
  by (simp add: edgeDepth_def)

lemma sample_pos_0: "sample_pos extent 0 = 0"
  by (simp add: sample_pos_def)

lemma uniform_pixel_at:
  "pixel_at (buffer_of (\<lambda>i. p) n) j = (if 0 \<le> j \<and> nat j < n then Some (colour_of p) else None)"
  by (simp add: pixel_at_buffer_of_int colour_of_def split: prod.splits)

lemma uniform_samples:
  "s \<in> set (sampleEdgesOnly (buffer_of (\<lambda>i. p) n) w h) \<Longrightarrow> s = None \<or> s = Some (colour_of p)"
  by (auto simp: sampleEdgesOnly_def Let_def set_sample_band getPixelColor_def uniform_pixel_at)

lemma uniform_first_sample:
  assumes "0 < n"
  shows "Some (colour_of p) \<in> set (sampleEdgesOnly (buffer_of (\<lambda>i. p) n) w h)"
proof -
  have "getPixelColor (buffer_of (\<lambda>i. p) n) (sample_pos w 0) (int 0) w = Some (colour_of p)"
    using assms by (simp add: getPixelColor_def uniform_pixel_at sample_pos_0)
  moreover have "(0::nat) < samplesPerEdge" by (simp add: samplesPerEdge_def)
  ultimately have "Some (colour_of p) \<in> set (sample_band (edgeDepth w h)
      (\<lambda>i d. getPixelColor (buffer_of (\<lambda>i. p) n) (sample_pos w i) (int d) w))"
    unfolding set_sample_band using edgeDepth_pos[of w h] by force
  then show ?thesis by (simp add: sampleEdgesOnly_def Let_def)
qed

lemma uniform_dominant:
  assumes "0 < n" "0 < alpha (colour_of p)" "byte_color (colour_of p)"
  shows "findDominantColors (sampleEdgesOnly (buffer_of (\<lambda>i. p) n) w h) = [colour_of p]"
  by (rule dominant_one_colour) (use assms uniform_samples uniform_first_sample in blast)+

lemma uniform_initial_mask:
  "createInitialBackgroundMask (buffer_of (\<lambda>i. p) (w * h)) w h [colour_of p] = replicate (w * h) True"
  unfolding createInitialBackgroundMask_def Let_def
  by (simp add: uniform_pixel_at distance_self map_const_upt)

lemma fold_update_length:
  "length (foldl (\<lambda>d k. if P k then d[g k := v] else d) d ks) = length d"
  by (induction ks arbitrary: d) simp_all

lemma fold_update_nth:
  "j < length d \<Longrightarrow>
   foldl (\<lambda>d k. if P k then d[g k := v] else d) d ks ! j =
     (if \<exists>k\<in>set ks. P k \<and> g k = j then v else d ! j)"
proof (induction ks rule: rev_induct)
  case Nil
  show ?case by simp
next
  case (snoc k ks)
  then show ?case
    by (cases "g k = j") (auto simp: fold_update_length)
qed

lemma applyBackgroundMask_length: "length (applyBackgroundMask m data) = length data"
  unfolding applyBackgroundMask_def by (rule fold_update_length)

lemma applyBackgroundMask_nth:
  assumes "j < length data"
  shows "applyBackgroundMask m data ! j =
     (if j mod 4 = 3 \<and> js_get m (j div 4) then 0 else data ! j)"
proof -
  have "(\<exists>k\<in>set [0..<(length data + 3) div 4]. js_get m k \<and> 4 * k + 3 = j)
        = (j mod 4 = 3 \<and> js_get m (j div 4))"
  proof
    assume "\<exists>k\<in>set [0..<(length data + 3) div 4]. js_get m k \<and> 4 * k + 3 = j"
    then obtain k where "js_get m k" "4 * k + 3 = j" by blast
    moreover from this have "j div 4 = k" "j mod 4 = 3" by auto
    ultimately show "j mod 4 = 3 \<and> js_get m (j div 4)" by simp
  next
    assume a: "j mod 4 = 3 \<and> js_get m (j div 4)"
    then have "4 * (j div 4) + 3 = j" using mult_div_mod_eq[of 4 j] by simp
    moreover from assms have "j div 4 < (length data + 3) div 4" by linarith
    ultimately show "\<exists>k\<in>set [0..<(length data + 3) div 4]. js_get m k \<and> 4 * k + 3 = j"
      using a by auto
  qed
  with fold_update_nth[OF assms, of "js_get m" "\<lambda>k. 4 * k + 3" 0 "[0..<(length data + 3) div 4]"]
  show ?thesis unfolding applyBackgroundMask_def by simp
qed

lemma composite_all_true:
  "map (composite_pixel (replicate n True) (replicate n False) (replicate n False) w h) [0..<n]
     = replicate n True"
  by (rule map_const_upt) (simp add: composite_pixel_def js_get_replicate)

lemma length_improvedBackgroundDetection:
  "length (improvedBackgroundDetection data w h) = w * h"
  by (simp add: improvedBackgroundDetection_def Let_def length_refineCompositeMask)

lemma final_chain_all_true: "final_chain (replicate (w * h) True) w h = replicate (w * h) True"
  by (rule covers_all_eq)
     (simp_all add: final_chain_covers covers_replicate length_final_chain)

lemma uniform_mask:
  assumes y: "r \<le> 255" "g \<le> 255" "b \<le> 255" "a \<le> 255"
    and a: "0 < a" and s: "\<not> skin_rule (int r) (int g) (int b)"
    and d: "real_of_int (int r + int g + int b) / 3 \<le> 180"
  shows "improvedBackgroundDetection (buffer_of (\<lambda>i. (r, g, b, a)) (w * h)) w h
           = replicate (w * h) True"
proof (cases "w * h = 0")
  case True
  have "length (improvedBackgroundDetection (buffer_of (\<lambda>i. (r, g, b, a)) (w * h)) w h) = 0"
    unfolding length_improvedBackgroundDetection by (rule True)
  then have "improvedBackgroundDetection (buffer_of (\<lambda>i. (r, g, b, a)) (w * h)) w h = []"
    by simp
  moreover have "replicate (w * h) True = []" unfolding True by simp
  ultimately show ?thesis by (simp only:)
next
  case False
  let ?data = "buffer_of (\<lambda>i. (r, g, b, a)) (w * h)"
  from False have n: "0 < w * h" by simp
  from a have "0 < alpha (colour_of (r, g, b, a))" by (simp add: colour_of_def)
  moreover from y have "byte_color (colour_of (r, g, b, a))"
    by (simp add: colour_of_def byte_color_def)
  ultimately
  have dom: "findDominantColors (sampleEdgesOnly ?data w h) = [colour_of (r, g, b, a)]"
    by (rule uniform_dominant[OF n])
  have sk: "detectSkinTones ?data w h = replicate (w * h) False"
    using flat_detectSkinTones[OF s, where al = "\<lambda>_. a"] .
  have cl: "detectClothing ?data w h = replicate (w * h) False"
    using flat_detectClothing[OF d, where al = "\<lambda>_. a"] .
  show ?thesis
    unfolding improvedBackgroundDetection_def Let_def dom uniform_initial_mask sk cl
      refineCompositeMask_chain floodFillBackground_full composite_all_true
    by (rule final_chain_all_true)
qed

lemma apply_all_true:
  "applyBackgroundMask (replicate n True) (buffer_of (\<lambda>i. (r, g, b, a)) n)
     = buffer_of (\<lambda>i. (r, g, b, 0)) n"
proof (rule nth_equalityI)
  show "length (applyBackgroundMask (replicate n True) (buffer_of (\<lambda>i. (r, g, b, a)) n))
      = length (buffer_of (\<lambda>i. (r, g, b, 0)) n)"
    by (simp add: applyBackgroundMask_length length_buffer_of)
next
  fix j assume "j < length (applyBackgroundMask (replicate n True) (buffer_of (\<lambda>i. (r, g, b, a)) n))"
  then have j: "j < 4 * n" by (simp add: applyBackgroundMask_length length_buffer_of)
  then have i: "j div 4 < n" and k: "j mod 4 < 4" and e: "4 * (j div 4) + j mod 4 = j" by auto
  have A: "buffer_of (\<lambda>i. (r, g, b, a)) n ! j = [r, g, b, a] ! (j mod 4)"
    using buffer_of_nth[OF i k, of "\<lambda>i. (r, g, b, a)"] e by simp
  have B: "buffer_of (\<lambda>i. (r, g, b, 0)) n ! j = [r, g, b, 0] ! (j mod 4)"
    using buffer_of_nth[OF i k, of "\<lambda>i. (r, g, b, 0)"] e by simp
  from k consider "j mod 4 = 0" | "j mod 4 = 1" | "j mod 4 = 2" | "j mod 4 = 3" by linarith
  then show "applyBackgroundMask (replicate n True) (buffer_of (\<lambda>i. (r, g, b, a)) n) ! j
      = buffer_of (\<lambda>i. (r, g, b, 0)) n ! j"
    using j i by cases (simp_all add: applyBackgroundMask_nth length_buffer_of A B js_get_replicate)
qed

lemma js_get_map_upt: "js_get (map f [0..<n]) i = (i < n \<and> f i)"
  by (auto simp: js_get_def)

lemma composite_avoids_protected:
  assumes "covers sm w h P"
  shows "avoids (map (composite_pixel flooded sm cm w h) [0..<w * h]) w h P"
proof (rule avoidsI)
  fix x y assume "x < w" "y < h" "P x y"
  from coversD[OF assms this] have "js_get sm (y * w + x)" .
  then show "\<not> js_get (map (composite_pixel flooded sm cm w h) [0..<w * h]) (y * w + x)"
    by (simp add: js_get_map_upt composite_pixel_def)
qed

lemma skin_image_mask:
  "covers (detectSkinTones skin_image 11 11) 11 11 (inside 2 11 11)"
proof -
  have "skin_pixel skin_image i" if "i < 11 * 11" for i
    using that skin_tone_example
    by (simp add: skin_pixel_def skin_image_def pixel_at_buffer_of)
  then have "rawSkinMask skin_image 11 11 = replicate (11 * 11) True"
    unfolding rawSkinMask_def by (intro map_const_upt) simp
  then show ?thesis
    unfolding detectSkinTones_chain
    by (simp only:) (intro cleanup_chain_covers covers_replicate)
qed

lemma skin_image_kept:
  "\<not> js_get (improvedBackgroundDetection skin_image 11 11) 60"
proof -
  have "avoids (improvedBackgroundDetection skin_image 11 11) 11 11 (inside 5 11 11)"
    unfolding improvedBackgroundDetection_def Let_def refineCompositeMask_chain
    by (intro final_chain_avoids composite_avoids_protected skin_image_mask)
  from avoidsD[OF this, of 5 5] show ?thesis by (simp add: inside_def)
qed

lemma sample_pos_range:
  assumes "i < samplesPerEdge" "int e < 2 ^ 53"
  shows "0 \<le> sample_pos e i \<and> sample_pos e i \<le> int e"
proof -
  let ?q = "fl (real i / real (samplesPerEdge - 1))"
  from assms have "0 \<le> real i / real (samplesPerEdge - 1)"
    "real i / real (samplesPerEdge - 1) \<le> real_of_int 1" by (simp_all add: samplesPerEdge_def)
  then have q: "0 \<le> ?q" "?q \<le> 1" using fl_nonneg fl_le[of _ 1] by simp_all
  have "real e * ?q \<le> real e * 1" by (rule mult_left_mono) (use q in simp_all)
  then have "real e * ?q \<le> real_of_int (int e)" by simp
  then have "fl (real e * ?q) \<le> real_of_int (int e)" by (rule fl_le) (use assms in simp)
  moreover have "0 \<le> fl (real e * ?q)" by (rule fl_nonneg) (use q in simp)
  ultimately show ?thesis unfolding sample_pos_def by (simp add: floor_le_iff le_floor_iff)
qed

lemma hole_pixel_at:
  "pixel_at hole_image j =
     (if 0 \<le> j \<and> j < 121 then
        Some \<lparr>red = 0, green = 0, blue = 255, alpha = (if j = 60 then 255 else 0)\<rparr>
      else None)"
  unfolding hole_image_def pixel_at_buffer_of_int by auto

lemma hole_pixel_transparent:
  "j \<noteq> 60 \<Longrightarrow> (case pixel_at hole_image j of None \<Rightarrow> True | Some c \<Rightarrow> alpha c \<le> 0)"
  by (simp add: hole_pixel_at)

lemma sample_band_all:
  "(\<And>i d. i < samplesPerEdge \<Longrightarrow> d < depth \<Longrightarrow> Q (pick i d))
   \<Longrightarrow> \<forall>s\<in>set (sample_band depth pick). Q s"
  by (auto simp: set_sample_band)

lemma hole_samples:
  "\<forall>s\<in>set (sampleEdgesOnly hole_image 11 11). (case s of None \<Rightarrow> True | Some c \<Rightarrow> alpha c \<le> 0)"
proof -
  have d: "edgeDepth 11 11 = 5" by (simp add: edgeDepth_def fl_eval)
  have r: "0 \<le> sample_pos 11 i \<and> sample_pos 11 i \<le> 11" if "i < samplesPerEdge" for i
    using sample_pos_range[OF that, of 11] by simp
  have 1: "int k * int 11 + sample_pos 11 i \<noteq> 60" if "i < samplesPerEdge" "k < 5" for i k
    using r[OF that(1)] that(2) by presburger
  have 2: "(int 11 - 1 - int k) * int 11 + sample_pos 11 i \<noteq> 60" if "i < samplesPerEdge" "k < 5" for i k
    using r[OF that(1)] that(2) by presburger
  have 3: "sample_pos 11 i * int 11 + int k \<noteq> 60" if "i < samplesPerEdge" "k < 5" for i k
    using r[OF that(1)] that(2) by presburger
  have 4: "sample_pos 11 i * int 11 + (int 11 - 1 - int k) \<noteq> 60" if "i < samplesPerEdge" "k < 5" for i k
    using r[OF that(1)] that(2) by presburger
  show ?thesis
    unfolding sampleEdgesOnly_def Let_def d set_append ball_Un getPixelColor_def
    by (intro conjI sample_band_all hole_pixel_transparent 1 2 3 4)
qed

lemma hole_no_valid_sample: "valid_colors (sampleEdgesOnly hole_image 11 11) = []"
  by (rule valid_colors_none) (rule hole_samples)

lemma hole_mask: "improvedBackgroundDetection hole_image 11 11 = replicate (11 * 11) True"
proof -
  have dom: "findDominantColors (sampleEdgesOnly hole_image 11 11) = []"
    by (simp add: findDominantColors_def hole_no_valid_sample)
  have ini: "createInitialBackgroundMask hole_image 11 11 [] = replicate (11 * 11) False"
    by (simp add: createInitialBackgroundMask_def)
  have sk: "detectSkinTones hole_image 11 11 = replicate (11 * 11) False"
    unfolding hole_image_def
    by (rule flat_detectSkinTones[where al = "\<lambda>i. if i = 60 then 255 else 0"])
       (use blue_not_skin in simp)
  have cl: "detectClothing hole_image 11 11 = replicate (11 * 11) False"
    unfolding hole_image_def
    by (rule flat_detectClothing[where al = "\<lambda>i. if i = 60 then 255 else 0"]) simp
  have co: "map (composite_pixel (replicate (11 * 11) False) (replicate (11 * 11) False)
               (replicate (11 * 11) False) 11 11) [0..<11 * 11] = replicate (11 * 11) True"
  proof (rule map_const_upt)
    fix i :: nat
    have "int (i mod 11) < 10 \<or> int 11 - 10 \<le> int (i mod 11)" by presburger
    then show "composite_pixel (replicate (11 * 11) False) (replicate (11 * 11) False)
               (replicate (11 * 11) False) 11 11 i = True"
      by (auto simp: composite_pixel_def js_get_replicate Let_def)
  qed
  show ?thesis
    unfolding improvedBackgroundDetection_def Let_def dom ini sk cl
      refineCompositeMask_chain floodFillBackground_empty co
    by (rule final_chain_all_true)
qed

section \<open>Facts about the writes to the pixel buffer\<close>

lemma fold_update_rgb:
  assumes "j < length d" "j mod 4 \<noteq> 3" "\<And>k. g k mod 4 = (3::nat)"
  shows "foldl (\<lambda>d k. if P k then d[g k := v] else d) d ks ! j = d ! j"
proof -
  from assms(2,3) have "\<not> (\<exists>k\<in>set ks. P k \<and> g k = j)" by metis
  with fold_update_nth[OF assms(1), of P g v ks] show ?thesis by simp
qed

lemma applyMaskToImage_rgb:
  "length (applyMaskToImage msk data w h) = length data"
  "j < length data \<Longrightarrow> j mod 4 \<noteq> 3 \<Longrightarrow> applyMaskToImage msk data w h ! j = data ! j"
  unfolding applyMaskToImage_def
  by (rule fold_update_length, rule fold_update_rgb) (simp_all add: mod_simps)

lemma brushRemove_rgb:
  "length (brushRemove maskData data) = length data"
  "j < length data \<Longrightarrow> j mod 4 \<noteq> 3 \<Longrightarrow> brushRemove maskData data ! j = data ! j"
  unfolding brushRemove_def
  by (rule fold_update_length, rule fold_update_rgb) (simp_all add: mod_simps)

section \<open>Facts about the region search of the Alpha Post-Processor\<close>

lemma smallRegion_visit_cases:
  "smallRegion_visit m w h t (q, V) cell =
     (if cell_in w h cell \<and> \<not> js_get V (cell_index w cell)
         \<and> mask_equals m (cell_index w cell) (if t then 1 else 0)
      then (q @ [cell_index w cell], js_set V (cell_index w cell) True)
      else (q, V))"
  by (cases cell) (auto simp: smallRegion_visit_def cell_in_def cell_index_def in_image_def Let_def)

lemma fresh_Nil: "fresh m w h v V [] = {}"
  by (simp add: fresh_def)

lemma fresh_Cons_skip:
  assumes "\<not> (cell_in w h cell \<and> \<not> js_get V (cell_index w cell) \<and> mask_equals m (cell_index w cell) v)"
  shows "fresh m w h v V (cell # cells) = fresh m w h v V cells"
  using assms by (auto simp: fresh_def)

lemma fresh_Cons_take:
  assumes "cell_in w h cell" "\<not> js_get V (cell_index w cell)" "mask_equals m (cell_index w cell) v"
  shows "fresh m w h v V (cell # cells)
         = insert (cell_index w cell) (fresh m w h v (js_set V (cell_index w cell) True) cells)"
  using assms by (auto simp: fresh_def js_get_js_set)

lemma smallRegion_visits_effect:
  assumes "foldl (smallRegion_visit m w h t) (q, V) cells = (q', V')"
  shows "set q' = set q \<union> fresh m w h (if t then 1 else 0) V cells
       \<and> (\<forall>i. js_get V' i = (js_get V i \<or> i \<in> fresh m w h (if t then 1 else 0) V cells))
       \<and> (distinct q \<and> (\<forall>b\<in>set q. js_get V b) \<longrightarrow> distinct q')"
  using assms
proof (induction cells arbitrary: q V)
  case Nil
  then show ?case by (simp add: fresh_Nil)
next
  case (Cons cell cells)
  let ?v = "if t then 1 else 0 :: nat"
  let ?b = "cell_index w cell"
  show ?case
  proof (cases "cell_in w h cell \<and> \<not> js_get V ?b \<and> mask_equals m ?b ?v")
    case True
    then have st: "smallRegion_visit m w h t (q, V) cell = (q @ [?b], js_set V ?b True)"
      by (simp add: smallRegion_visit_cases)
    with Cons.prems have "foldl (smallRegion_visit m w h t) (q @ [?b], js_set V ?b True) cells = (q', V')"
      by simp
    from Cons.IH[OF this]
    have IH: "set q' = set (q @ [?b]) \<union> fresh m w h ?v (js_set V ?b True) cells"
      "\<And>i. js_get V' i = (js_get (js_set V ?b True) i \<or> i \<in> fresh m w h ?v (js_set V ?b True) cells)"
      "distinct (q @ [?b]) \<and> (\<forall>c\<in>set (q @ [?b]). js_get (js_set V ?b True) c) \<longrightarrow> distinct q'"
      by blast+
    have F: "fresh m w h ?v V (cell # cells) = insert ?b (fresh m w h ?v (js_set V ?b True) cells)"
      using True by (intro fresh_Cons_take) simp_all
    have 1: "set q' = set q \<union> fresh m w h ?v V (cell # cells)"
      unfolding F IH(1) by auto
    have 2: "\<forall>i. js_get V' i = (js_get V i \<or> i \<in> fresh m w h ?v V (cell # cells))"
      unfolding F IH(2) by (auto simp: js_get_js_set)
    have 3: "distinct q \<and> (\<forall>b\<in>set q. js_get V b) \<longrightarrow> distinct q'"
    proof
      assume a: "distinct q \<and> (\<forall>b\<in>set q. js_get V b)"
      with True have "?b \<notin> set q" by blast
      with a have "distinct (q @ [?b]) \<and> (\<forall>c\<in>set (q @ [?b]). js_get (js_set V ?b True) c)"
        by (auto simp: js_get_js_set)
      with IH(3) show "distinct q'" by blast
    qed
    from 1 2 3 show ?thesis by blast
  next
    case False
    then have st: "smallRegion_visit m w h t (q, V) cell = (q, V)"
      by (simp add: smallRegion_visit_cases)
    with Cons.prems have "foldl (smallRegion_visit m w h t) (q, V) cells = (q', V')" by simp
    from Cons.IH[OF this] fresh_Cons_skip[OF False] show ?thesis by simp
  qed
qed

lemma neighbor_cells:
  assumes c: "c < w * h"
  shows "{cell_index w cell | cell. cell \<in> set (neighbors4 (int (c mod w)) (int (c div w))) \<and> cell_in w h cell}
         = {b. adjacent4 w h c b}"
proof -
  from c have w: "0 < w" by (cases w) auto
  let ?x = "c mod w" and ?y = "c div w"
  from index_split[OF c] have xy: "?x < w" "?y < h" by simp_all
  have R: "b \<in> {cell_index w cell | cell. cell \<in> set (neighbors4 (int ?x) (int ?y)) \<and> cell_in w h cell}
        \<longleftrightarrow> adjacent4 w h c b" for b
  proof
    assume "b \<in> {cell_index w cell | cell. cell \<in> set (neighbors4 (int ?x) (int ?y)) \<and> cell_in w h cell}"
    then obtain nx ny where cell: "(nx, ny) \<in> set (neighbors4 (int ?x) (int ?y))"
      and inb: "in_image w h nx ny" and b: "b = nat (ny * int w + nx)"
      by (auto simp: cell_in_def cell_index_def)
    from inb have n: "0 \<le> nx" "nx < int w" "0 \<le> ny" "ny < int h" by (auto simp: in_image_def)
    then have b': "b = nat ny * w + nat nx" unfolding b
      by (simp add: nat_add_distrib nat_mult_distrib)
    from n have q: "nat nx < w" by simp
    then have bm: "b mod w = nat nx" "b div w = nat ny" unfolding b' by simp_all
    from in_image_index[OF inb] have bl: "b < w * h" unfolding b .
    from cell consider "nx = int ?x + 1 \<and> ny = int ?y" | "nx = int ?x - 1 \<and> ny = int ?y"
      | "nx = int ?x \<and> ny = int ?y + 1" | "nx = int ?x \<and> ny = int ?y - 1"
      by (auto simp: neighbors4_def)
    then show "adjacent4 w h c b"
      using n c bl unfolding adjacent4_def bm by cases auto
  next
    assume a: "adjacent4 w h c b"
    then have bl: "b < w * h" by (simp add: adjacent4_def)
    from index_split[OF bl] have bxy: "b mod w < w" "b div w < h" "b div w * w + b mod w = b"
      by simp_all
    let ?cell = "(int (b mod w), int (b div w))"
    have i: "cell_in w h ?cell" using bxy by (simp add: cell_in_def in_image_def)
    have e: "cell_index w ?cell = b"
      using bxy(3) by (simp add: cell_index_def nat_add_distrib nat_mult_distrib)
    from a have "?cell \<in> set (neighbors4 (int ?x) (int ?y))"
      unfolding adjacent4_def neighbors4_def by auto
    with i e show "b \<in> {cell_index w cell | cell. cell \<in> set (neighbors4 (int ?x) (int ?y)) \<and> cell_in w h cell}"
      by (metis (mono_tags, lifting) mem_Collect_eq)
  qed
  then show ?thesis by blast
qed

lemma fresh_neighbors:
  assumes "c < w * h"
  shows "fresh m w h v V (neighbors4 (int (c mod w)) (int (c div w)))
         = {b. adjacent4 w h c b \<and> \<not> js_get V b \<and> mask_equals m b v}"
proof -
  have "fresh m w h v V (neighbors4 (int (c mod w)) (int (c div w)))
      = {b. b \<in> {cell_index w cell | cell. cell \<in> set (neighbors4 (int (c mod w)) (int (c div w))) \<and> cell_in w h cell}
            \<and> \<not> js_get V b \<and> mask_equals m b v}"
    unfolding fresh_def by blast
  then show ?thesis unfolding neighbor_cells[OF assms] by simp
qed

lemma adjacent4_sym: "adjacent4 w h a b \<Longrightarrow> adjacent4 w h b a"
  by (auto simp: adjacent4_def)

lemma same_state_sym: "(a, b) \<in> same_state m w h \<Longrightarrow> (b, a) \<in> same_state m w h"
  by (auto simp: same_state_def adjacent4_sym)

lemma same_state_rtrancl_sym:
  "(a, b) \<in> (same_state m w h)\<^sup>* \<Longrightarrow> (b, a) \<in> (same_state m w h)\<^sup>*"
  by (induction rule: rtrancl_induct) (auto intro: converse_rtrancl_into_rtrancl same_state_sym)

lemma same_state_value: "(a, b) \<in> (same_state m w h)\<^sup>* \<Longrightarrow> m ! b = m ! a"
  by (induction rule: rtrancl_induct) (auto simp: same_state_def)

lemma same_state_bound: "(a, b) \<in> (same_state m w h)\<^sup>* \<Longrightarrow> a < w * h \<Longrightarrow> b < w * h"
  by (induction rule: rtrancl_induct) (auto simp: same_state_def adjacent4_def)

lemma region_of_self: "s \<in> region_of m w h s"
  by (simp add: region_of_def)

lemma region_of_step: "c \<in> region_of m w h s \<Longrightarrow> (c, b) \<in> same_state m w h \<Longrightarrow> b \<in> region_of m w h s"
  by (auto simp: region_of_def intro: rtrancl_into_rtrancl)

lemma region_of_value: "c \<in> region_of m w h s \<Longrightarrow> m ! c = m ! s"
  by (simp add: region_of_def same_state_value)

lemma region_of_bound: "c \<in> region_of m w h s \<Longrightarrow> s < w * h \<Longrightarrow> c < w * h"
  by (auto simp: region_of_def dest: same_state_bound)

lemma region_of_eq: "c \<in> region_of m w h s \<Longrightarrow> region_of m w h c = region_of m w h s"
proof -
  assume c: "c \<in> region_of m w h s"
  then have sc: "(s, c) \<in> (same_state m w h)\<^sup>*" by (simp add: region_of_def)
  then have cs: "(c, s) \<in> (same_state m w h)\<^sup>*" by (rule same_state_rtrancl_sym)
  show ?thesis unfolding region_of_def using sc cs by (auto intro: rtrancl_trans)
qed

lemma closed_under_rtrancl:
  "(a, b) \<in> S\<^sup>* \<Longrightarrow> closed_under S V \<Longrightarrow> js_get V a \<Longrightarrow> js_get V b"
  by (induction rule: rtrancl_induct) (auto simp: closed_under_def)

lemma closed_avoids_region:
  assumes "closed_under (same_state m w h) V0" "\<not> js_get V0 s" "c \<in> region_of m w h s"
  shows "\<not> js_get V0 c"
proof
  assume "js_get V0 c"
  moreover from assms(3) have "(c, s) \<in> (same_state m w h)\<^sup>*"
    by (simp add: region_of_def same_state_rtrancl_sym)
  ultimately have "js_get V0 s" using closed_under_rtrancl[OF _ assms(1)] by blast
  with assms(2) show False ..
qed

lemma bfs_inv_final:
  assumes cl: "closed_under (same_state m w h) V0" and s0: "\<not> js_get V0 s"
    and inv: "bfs_inv m w h s V0 [] V R touches"
  shows "set R = region_of m w h s \<and> distinct R
       \<and> (\<forall>i. js_get V i = (js_get V0 i \<or> i \<in> region_of m w h s))
       \<and> touches = (\<exists>c\<in>region_of m w h s. edge_index w h c)"
proof -
  from inv have sub: "set R \<subseteq> region_of m w h s" and s: "s \<in> set R" and d: "distinct R"
    and V: "\<And>i. js_get V i = (js_get V0 i \<or> i \<in> set R)"
    and C: "\<And>c b. c \<in> set R \<Longrightarrow> (c, b) \<in> same_state m w h \<Longrightarrow> js_get V b"
    and T: "touches = (\<exists>c\<in>set R. edge_index w h c)"
    unfolding bfs_inv_def by auto
  have "j \<in> set R" if "(s, j) \<in> (same_state m w h)\<^sup>*" for j
    using that
  proof (induction rule: rtrancl_induct)
    case base
    show ?case by (rule s)
  next
    case (step j k)
    from C[OF step.IH step.hyps(2)] have "js_get V0 k \<or> k \<in> set R" by (simp add: V)
    moreover have "k \<in> region_of m w h s"
      using step.hyps by (auto simp: region_of_def intro: rtrancl_into_rtrancl)
    from closed_avoids_region[OF cl s0 this] have "\<not> js_get V0 k" .
    ultimately show ?case by blast
  qed
  then have "region_of m w h s \<subseteq> set R" by (auto simp: region_of_def)
  with sub have e: "set R = region_of m w h s" by blast
  with d V T show ?thesis by simp
qed

lemma bfs_inv_step:
  assumes L: "length m = w * h" and tv: "m ! s = (if t then 1 else 0)" and sn: "s < w * h"
    and inv: "bfs_inv m w h s V0 (c # q) V R touches"
    and run: "foldl (smallRegion_visit m w h t) (q, V)
                (neighbors4 (int (c mod w)) (int (c div w))) = (q', V')"
  shows "bfs_inv m w h s V0 q' V' (R @ [c])
           (touches \<or> c mod w = 0 \<or> int (c mod w) = int w - 1 \<or> c div w = 0
             \<or> int (c div w) = int h - 1)"
proof -
  let ?S = "same_state m w h"
  let ?v = "if t then 1 else 0 :: nat"
  from inv have sub: "set (c # q) \<union> set R \<subseteq> region_of m w h s"
    and s: "s \<in> set (c # q) \<union> set R" and d: "distinct (R @ c # q)"
    and V: "\<And>i. js_get V i = (js_get V0 i \<or> i \<in> set (c # q) \<union> set R)"
    and C: "\<And>a b. a \<in> set R \<Longrightarrow> (a, b) \<in> ?S \<Longrightarrow> js_get V b"
    and T: "touches = (\<exists>a\<in>set R. edge_index w h a)"
    unfolding bfs_inv_def by auto
  from sub have cr: "c \<in> region_of m w h s" by simp
  from region_of_bound[OF cr sn] have cn: "c < w * h" .
  from region_of_value[OF cr] tv have cv: "m ! c = ?v" by simp
  let ?New = "{b. adjacent4 w h c b \<and> \<not> js_get V b \<and> mask_equals m b ?v}"
  from smallRegion_visits_effect[OF run] fresh_neighbors[OF cn, of m ?v V]
  have q': "set q' = set q \<union> ?New"
    and V': "\<And>i. js_get V' i = (js_get V i \<or> i \<in> ?New)"
    and dq: "distinct q \<and> (\<forall>b\<in>set q. js_get V b) \<longrightarrow> distinct q'"
    by simp_all
  have newS: "(c, b) \<in> ?S" if "b \<in> ?New" for b
    using that cv by (auto simp: same_state_def mask_equals_def)
  have newR: "?New \<subseteq> region_of m w h s"
    using region_of_step[OF cr newS] by blast
  have 1: "set q' \<union> set (R @ [c]) \<subseteq> region_of m w h s"
    using sub newR unfolding q' by auto
  have 2: "s \<in> set q' \<union> set (R @ [c])" using s unfolding q' by auto
  have "distinct q'" using dq d V by auto
  moreover have "set q' \<inter> set (R @ [c]) = {}"
  proof -
    have "?New \<inter> set (R @ [c]) = {}" using V by auto
    moreover have "set q \<inter> set (R @ [c]) = {}" using d by auto
    ultimately show ?thesis unfolding q' by blast
  qed
  ultimately have 3: "distinct ((R @ [c]) @ q')" using d by auto
  have 4: "\<forall>i. js_get V' i = (js_get V0 i \<or> i \<in> set q' \<union> set (R @ [c]))"
    unfolding V' V q' by auto
  have 5: "\<forall>a\<in>set (R @ [c]). \<forall>b. (a, b) \<in> ?S \<longrightarrow> js_get V' b"
  proof (intro ballI allI impI)
    fix a b assume a: "a \<in> set (R @ [c])" and ab: "(a, b) \<in> ?S"
    show "js_get V' b"
    proof (cases "a = c")
      case True
      with ab have "adjacent4 w h c b" "m ! b = m ! c" by (auto simp: same_state_def)
      moreover from this have "b < w * h" by (simp add: adjacent4_def)
      ultimately have "js_get V b \<or> b \<in> ?New"
        using cv L by (auto simp: mask_equals_def)
      then show ?thesis by (simp add: V')
    next
      case False
      with a have "a \<in> set R" by simp
      from C[OF this ab] show ?thesis by (simp add: V')
    qed
  qed
  have 6: "(touches \<or> c mod w = 0 \<or> int (c mod w) = int w - 1 \<or> c div w = 0
             \<or> int (c div w) = int h - 1) = (\<exists>a\<in>set (R @ [c]). edge_index w h a)"
    unfolding T by (auto simp: edge_index_def)
  from 1 2 3 4 5 6 show ?thesis unfolding bfs_inv_def by blast
qed

lemma smallRegion_bfs_result:
  "length m = w * h \<Longrightarrow> m ! s = (if t then 1 else 0) \<Longrightarrow> s < w * h \<Longrightarrow>
   closed_under (same_state m w h) V0 \<Longrightarrow> \<not> js_get V0 s \<Longrightarrow>
   bfs_inv m w h s V0 q V R touches \<Longrightarrow>
   smallRegion_bfs m w h t q V R touches = (V', R', touches') \<Longrightarrow>
     set R' = region_of m w h s \<and> distinct R'
     \<and> (\<forall>i. js_get V' i = (js_get V0 i \<or> i \<in> region_of m w h s))
     \<and> touches' = (\<exists>c\<in>region_of m w h s. edge_index w h c)"
proof (induction m w h t q V R touches rule: smallRegion_bfs.induct)
  case (1 transparentMask width height isTransparent visited region touchesEdge)
  from "1.prems"(7) have e: "V' = visited" "R' = region" "touches' = touchesEdge" by simp_all
  from bfs_inv_final[OF "1.prems"(4) "1.prems"(5) "1.prems"(6)] show ?case unfolding e .
next
  case (2 transparentMask width height isTransparent current queue visited region touchesEdge)
  obtain q1 v1 where f: "foldl (smallRegion_visit transparentMask width height isTransparent)
      (queue, visited) (neighbors4 (int (current mod width)) (int (current div width))) = (q1, v1)"
    by (cases "foldl (smallRegion_visit transparentMask width height isTransparent)
      (queue, visited) (neighbors4 (int (current mod width)) (int (current div width)))")
  from bfs_inv_step[OF "2.prems"(1) "2.prems"(2) "2.prems"(3) "2.prems"(6) f]
  have inv': "bfs_inv transparentMask width height s V0 q1 v1 (region @ [current])
           (touchesEdge \<or> current mod width = 0 \<or> int (current mod width) = int width - 1
             \<or> current div width = 0 \<or> int (current div width) = int height - 1)" .
  from "2.prems"(7) f
  have run': "smallRegion_bfs transparentMask width height isTransparent q1 v1 (region @ [current])
           (touchesEdge \<or> current mod width = 0 \<or> int (current mod width) = int width - 1
             \<or> current div width = 0 \<or> int (current div width) = int height - 1)
           = (V', R', touches')" by simp
  from "2.IH"[OF f[symmetric] "2.prems"(1) "2.prems"(2) "2.prems"(3) "2.prems"(4)
      "2.prems"(5) inv' run'] show ?case .
qed

lemma edge_index_on_border:
  "c < w * h \<Longrightarrow> edge_index w h c = on_border w h (c mod w) (c div w)"
proof -
  assume c: "c < w * h"
  from index_split[OF c] have "c mod w < w" "c div w < h" by simp_all
  then show ?thesis unfolding edge_index_def on_border_def by auto
qed

lemma flip_region_length: "length (flip_region t R d) = length d"
  unfolding flip_region_def by (induction R arbitrary: d) simp_all

lemma flip_region_nth:
  assumes "j < length d"
  shows "flip_region t R d ! j =
     (if \<exists>idx\<in>set R. idx * 4 + 3 = j then (if t then 255 else 0) else d ! j)"
  unfolding flip_region_def
  using fold_update_nth[OF assms, of "\<lambda>_. True" "\<lambda>idx. idx * 4 + 3" "if t then 255 else 0" R]
  by simp

lemma small_inner_region_eq:
  assumes "c \<in> region_of m w h k"
  shows "small_inner_region m w h c = small_inner_region m w h k"
  unfolding small_inner_region_def region_of_eq[OF assms] region_of_value[OF assms] ..

lemma flipped_alpha_region:
  assumes "c \<in> region_of m w h k"
  shows "flipped_alpha m d0 w h c =
     (if small_inner_region m w h k then (if m ! k = 1 then 255 else 0) else d0 ! (c * 4 + 3))"
  unfolding flipped_alpha_def small_inner_region_eq[OF assms] region_of_value[OF assms] ..

lemma step_visited:
  "js_get V k \<Longrightarrow> removeSmallRegions_step m w h (V, d) k = (V, d)"
  by (simp add: removeSmallRegions_step_def)

lemma outer_step:
  assumes L: "length m = w * h" and B: "\<forall>i<w * h. m ! i = 0 \<or> m ! i = 1"
    and D: "length d0 = 4 * (w * h)" and k: "k < w * h"
    and inv: "outer_inv m w h d0 V d"
    and st: "removeSmallRegions_step m w h (V, d) k = (V', d')"
  shows "outer_inv m w h d0 V' d' \<and> js_get V' k \<and> (\<forall>i. js_get V i \<longrightarrow> js_get V' i)"
proof (cases "js_get V k")
  case True
  with st inv show ?thesis by (simp add: step_visited)
next
  case False
  let ?S = "same_state m w h"
  let ?t = "mask_equals m k 1"
  let ?C = "region_of m w h k"
  from inv have cl: "closed_under ?S V" and ld: "length d = length d0"
    and rgb: "\<And>j. j < length d0 \<Longrightarrow> j mod 4 \<noteq> 3 \<Longrightarrow> d ! j = d0 ! j"
    and al: "\<And>i. i < w * h \<Longrightarrow> d ! (i * 4 + 3)
             = (if js_get V i then flipped_alpha m d0 w h i else d0 ! (i * 4 + 3))"
    unfolding outer_inv_def by auto
  have t: "?t = (m ! k = 1)" using k L by (simp add: mask_equals_def)
  have tv: "m ! k = (if ?t then 1 else 0)" using B k t by auto
  obtain V1 R1 T1 where run: "smallRegion_bfs m w h ?t [k] (js_set V k True) [] False = (V1, R1, T1)"
    by (cases "smallRegion_bfs m w h ?t [k] (js_set V k True) [] False") auto
  have i0: "bfs_inv m w h k V [k] (js_set V k True) [] False"
    unfolding bfs_inv_def by (auto simp: region_of_self js_get_js_set)
  from smallRegion_bfs_result[OF L tv k cl False i0 run]
  have R: "set R1 = ?C" and dR: "distinct R1"
    and V1: "\<And>i. js_get V1 i = (js_get V i \<or> i \<in> ?C)"
    and T1: "T1 = (\<exists>c\<in>?C. edge_index w h c)" by blast+
  have card: "length R1 = card ?C" using distinct_card[OF dR] R by simp
  have T1': "T1 = (\<exists>c. c \<in> ?C \<and> on_border w h (c mod w) (c div w))"
    unfolding T1 using edge_index_on_border region_of_bound[OF _ k] by blast
  have small: "(\<not> T1 \<and> length R1 < (if ?t then 200 else 100)) = small_inner_region m w h k"
    unfolding small_inner_region_def T1' card t by simp
  have V': "V' = V1" and d': "d' = (if small_inner_region m w h k then flip_region ?t R1 d else d)"
    using st False run small by (auto simp: removeSmallRegions_step_def Let_def)
  have cl': "closed_under ?S V1"
    unfolding closed_under_def
  proof (intro allI impI)
    fix a b assume a: "js_get V1 a \<and> (a, b) \<in> ?S"
    then consider "js_get V a" | "a \<in> ?C" by (auto simp: V1)
    then show "js_get V1 b"
    proof cases
      case 1
      with cl a have "js_get V b" by (auto simp: closed_under_def)
      then show ?thesis by (simp add: V1)
    next
      case 2
      from region_of_step[OF this] a show ?thesis by (simp add: V1)
    qed
  qed
  have len: "length d' = length d0" unfolding d' by (simp add: flip_region_length ld)
  have rgb': "d' ! j = d0 ! j" if "j < length d0" "j mod 4 \<noteq> 3" for j
  proof -
    have "\<not> (\<exists>idx\<in>set R1. idx * 4 + 3 = j)" using that(2) by (auto simp: mod_simps)
    then show ?thesis unfolding d' using that rgb[OF that] ld by (simp add: flip_region_nth)
  qed
  have al': "d' ! (i * 4 + 3) = (if js_get V1 i then flipped_alpha m d0 w h i else d0 ! (i * 4 + 3))"
    if i: "i < w * h" for i
  proof -
    have il: "i * 4 + 3 < length d" using i D ld by simp
    have mem: "(\<exists>idx\<in>set R1. idx * 4 + 3 = i * 4 + 3) = (i \<in> ?C)" unfolding R by auto
    show ?thesis
    proof (cases "i \<in> ?C")
      case True
      from closed_avoids_region[OF cl False True] have nv: "\<not> js_get V i" .
      from al[OF i] nv have old: "d ! (i * 4 + 3) = d0 ! (i * 4 + 3)" by simp
      show ?thesis
        unfolding d' using True old il t
        by (simp add: flip_region_nth R V1 flipped_alpha_region[OF True])
    next
      case False
      then show ?thesis
        unfolding d' using al[OF i] il by (simp add: flip_region_nth R V1)
    qed
  qed
  have "js_get V1 k" by (simp add: V1 region_of_self)
  moreover have "\<forall>i. js_get V i \<longrightarrow> js_get V1 i" by (simp add: V1)
  moreover have "outer_inv m w h d0 V1 d'"
    unfolding outer_inv_def using cl' len rgb' al' by blast
  ultimately show ?thesis unfolding V' by blast
qed

lemma outer_loop_inv:
  assumes L: "length m = w * h" and B: "\<forall>i<w * h. m ! i = 0 \<or> m ! i = 1"
    and D: "length d0 = 4 * (w * h)"
    and inv: "outer_inv m w h d0 V d"
  shows "\<forall>k\<in>set ks. k < w * h \<Longrightarrow>
         foldl (removeSmallRegions_step m w h) (V, d) ks = (V', d') \<Longrightarrow>
         outer_inv m w h d0 V' d' \<and> (\<forall>k\<in>set ks. js_get V' k) \<and> (\<forall>i. js_get V i \<longrightarrow> js_get V' i)"
proof (induction ks arbitrary: V' d' rule: rev_induct)
  case Nil
  with inv show ?case by simp
next
  case (snoc k ks)
  obtain V1 d1 where f: "foldl (removeSmallRegions_step m w h) (V, d) ks = (V1, d1)"
    by (cases "foldl (removeSmallRegions_step m w h) (V, d) ks")
  from snoc.prems(1) have ks: "\<forall>k\<in>set ks. k < w * h" and k: "k < w * h" by simp_all
  from snoc.IH[OF ks f] have i1: "outer_inv m w h d0 V1 d1"
    and v1: "\<forall>k\<in>set ks. js_get V1 k" and m1: "\<forall>i. js_get V i \<longrightarrow> js_get V1 i" by blast+
  from snoc.prems(2) f have st: "removeSmallRegions_step m w h (V1, d1) k = (V', d')" by simp
  from outer_step[OF L B D k i1 st] v1 m1 show ?case by auto
qed

lemma removeSmallRegions_correct:
  assumes L: "length m = w * h" and B: "\<forall>i<w * h. m ! i = 0 \<or> m ! i = 1"
    and D: "length d0 = 4 * (w * h)"
  shows "length (removeSmallRegions m d0 w h) = length d0"
    and "j < length d0 \<Longrightarrow> j mod 4 \<noteq> 3 \<Longrightarrow> removeSmallRegions m d0 w h ! j = d0 ! j"
    and "i < w * h \<Longrightarrow> removeSmallRegions m d0 w h ! (i * 4 + 3) = flipped_alpha m d0 w h i"
proof -
  obtain V' d' where f: "foldl (removeSmallRegions_step m w h)
      (replicate (w * h) False, d0) [0..<w * h] = (V', d')"
    by (cases "foldl (removeSmallRegions_step m w h) (replicate (w * h) False, d0) [0..<w * h]")
  have i0: "outer_inv m w h d0 (replicate (w * h) False) d0"
    unfolding outer_inv_def closed_under_def by (simp add: js_get_replicate)
  have "\<forall>k\<in>set [0..<w * h]. k < w * h" by simp
  from outer_loop_inv[OF L B D i0 this f]
  have inv: "outer_inv m w h d0 V' d'" and all: "\<forall>k<w * h. js_get V' k" by auto
  have r: "removeSmallRegions m d0 w h = d'" by (simp add: removeSmallRegions_def f)
  from inv show "length (removeSmallRegions m d0 w h) = length d0"
    unfolding r outer_inv_def by simp
  from inv show "j < length d0 \<Longrightarrow> j mod 4 \<noteq> 3 \<Longrightarrow> removeSmallRegions m d0 w h ! j = d0 ! j"
    unfolding r outer_inv_def by simp
  from inv all show "i < w * h \<Longrightarrow> removeSmallRegions m d0 w h ! (i * 4 + 3) = flipped_alpha m d0 w h i"
    unfolding r outer_inv_def by simp
qed

lemma transparentMaskOf_props:
  assumes D: "length data = 4 * (w * h)"
  shows "length (transparentMaskOf data w h) = w * h"
    and "\<forall>i<w * h. transparentMaskOf data w h ! i = 0 \<or> transparentMaskOf data w h ! i = 1"
    and "i < w * h \<Longrightarrow> (transparentMaskOf data w h ! i = 1) = (data ! (i * 4 + 3) = 0)"
  using D by (simp_all add: transparentMaskOf_def)

lemma pinhole_mask:
  "transparentMaskOf pinhole_image 3 3 = [0, 0, 0, 0, 1, 0, 0, 0, 0]"
proof -
  have "pinhole_image ! (i * 4 + 3) = (if i = 4 then 0 else 255)" if "i < 9" for i
    using buffer_of_nth[of i 9 3 "\<lambda>i. (1, 2, 3, if i = 4 then 0 else 255)"] that
    by (simp add: pinhole_image_def mult.commute)
  then have "map (\<lambda>i. if i * 4 + 3 < length pinhole_image \<and> pinhole_image ! (i * 4 + 3) = 0
                     then 1 else 0) [0..<9] = map (\<lambda>i. if i = 4 then 1 else (0::nat)) [0..<9]"
    by (intro map_cong) (auto simp: pinhole_image_def length_buffer_of)
  also have "\<dots> = [0, 0, 0, 0, 1, 0, 0, 0, 0]" by code_simp
  finally show ?thesis by (simp add: transparentMaskOf_def)
qed

lemma pinhole_region: "region_of (transparentMaskOf pinhole_image 3 3) 3 3 4 = {4}"
proof -
  have "b = 4" if "(4, b) \<in> (same_state [0, 0, 0, 0, 1, 0, 0, 0, 0] 3 3)\<^sup>*" for b
    using that
  proof (induction rule: rtrancl_induct)
    case base
    show ?case by simp
  next
    case (step y z)
    then have a: "adjacent4 3 3 4 z" and v: "[0, 0, 0, 0, 1, 0, 0, 0, 0::nat] ! 4 = [0, 0, 0, 0, 1, 0, 0, 0, 0] ! z"
      by (auto simp: same_state_def)
    from a have "z < 9" by (simp add: adjacent4_def)
    then consider "z = 0" | "z = 1" | "z = 2" | "z = 3" | "z = 4" | "z = 5" | "z = 6" | "z = 7" | "z = 8"
      by linarith
    then show ?case using v by cases simp_all
  qed
  then show ?thesis unfolding pinhole_mask region_of_def by auto
qed

section \<open>Buffers that differ in their alpha bytes only\<close>

lemma alpha_only_refl: "alpha_only d d"
  by (simp add: alpha_only_def)

lemma alpha_only_trans [trans]: "alpha_only a b \<Longrightarrow> alpha_only b c \<Longrightarrow> alpha_only a c"
  by (auto simp: alpha_only_def)

lemma alpha_only_update: "alpha_only d (d[i * 4 + 3 := v])"
proof -
  have "d[i * 4 + 3 := v] ! j = d ! j" if "j mod 4 \<noteq> 3" for j
  proof -
    from that have "i * 4 + 3 \<noteq> j" by presburger
    then show ?thesis by simp
  qed
  then show ?thesis by (simp add: alpha_only_def)
qed

lemma alpha_only_foldl:
  assumes "\<And>d k. alpha_only d (f d k)"
  shows "alpha_only d (foldl f d ks)"
proof (induction ks rule: rev_induct)
  case Nil
  show ?case by (simp add: alpha_only_refl)
next
  case (snoc k ks)
  from alpha_only_trans[OF snoc assms] show ?case by simp
qed

lemma alpha_only_flip_region: "alpha_only d (flip_region t R d)"
  unfolding flip_region_def by (rule alpha_only_foldl) (rule alpha_only_update)

lemma alpha_only_step:
  "alpha_only (snd st) (snd (removeSmallRegions_step m w h st k))"
proof -
  obtain V d where st: "st = (V, d)" by (cases st)
  obtain V1 R1 T1 where run: "smallRegion_bfs m w h (mask_equals m k 1) [k] (js_set V k True) [] False
      = (V1, R1, T1)"
    by (cases "smallRegion_bfs m w h (mask_equals m k 1) [k] (js_set V k True) [] False") auto
  have "snd (removeSmallRegions_step m w h (V, d) k) = d
      \<or> snd (removeSmallRegions_step m w h (V, d) k) = flip_region (mask_equals m k 1) R1 d"
    unfolding removeSmallRegions_step_def Let_def prod.case run by simp
  then show ?thesis unfolding st snd_conv
    using alpha_only_refl[of d] alpha_only_flip_region[of d "mask_equals m k 1" R1] by metis
qed

lemma alpha_only_removeSmallRegions: "alpha_only d (removeSmallRegions m d w h)"
proof -
  have "alpha_only d (snd (foldl (removeSmallRegions_step m w h) (V, d) ks))" for V ks
  proof (induction ks rule: rev_induct)
    case Nil
    show ?case by (simp add: alpha_only_refl)
  next
    case (snoc k ks)
    from alpha_only_trans[OF snoc alpha_only_step] show ?case by simp
  qed
  then show ?thesis by (simp add: removeSmallRegions_def)
qed

lemma alpha_only_smoothEdges: "alpha_only d (smoothEdges d w h)"
  unfolding smoothEdges_def Let_def
  by (rule alpha_only_foldl) (simp add: alpha_only_refl alpha_only_update)

lemma alpha_only_applyMaskToImage: "alpha_only d (applyMaskToImage m d w h)"
  unfolding applyMaskToImage_def
  by (rule alpha_only_foldl) (simp add: alpha_only_refl alpha_only_update)

lemma alpha_only_removeBackgroundPro_apply: "alpha_only d (removeBackgroundPro_apply m d w h)"
proof -
  let ?a = "applyMaskToImage m d w h"
  let ?r = "removeSmallRegions (transparentMaskOf ?a w h) ?a w h"
  have "alpha_only d ?a" by (rule alpha_only_applyMaskToImage)
  also have "alpha_only ?a ?r" by (rule alpha_only_removeSmallRegions)
  also have "alpha_only ?r (smoothEdges ?r w h)" by (rule alpha_only_smoothEdges)
  finally show ?thesis by (simp add: removeBackgroundPro_apply_def postProcessResult_def)
qed

section \<open>Claims about the Morphological Refiner\<close>

text \<open>
  C10.  For a mask of \<open>width * height\<close> entries, \<open>erode\<close> returns a new mask that is
  false at every pixel of the 1-pixel image border, \<open>dilate\<close> returns a new mask that
  agrees with the input at every pixel of that border, both results have the length of
  the input, and the input array is the same after the loops as before.
\<close>

theorem erode_dilate_border:
  assumes L: "length msk = width * height" and B: "on_border width height x y"
  shows "erode msk width height ! (y * width + x) = False
       \<and> dilate msk width height ! (y * width + x) = msk ! (y * width + x)
       \<and> length (erode msk width height) = length msk
       \<and> length (dilate msk width height) = length msk
       \<and> input_mask (erode_run msk width height) = msk
       \<and> input_mask (dilate_run msk width height) = msk"
proof -
  from B have x: "x < width" and y: "y < height" and N: "\<not> inside 1 width height x y"
    by (auto simp: on_border_def inside_def)
  from idx_in_range[OF x y] L have i: "y * width + x < length msk" by simp
  have le: "length (erode msk width height) = length msk" using L by (simp add: length_erode)
  have ld: "length (dilate msk width height) = length msk" using L by (simp add: length_dilate)
  have "\<not> js_get (erode msk width height) (y * width + x)"
    using N by (simp add: js_get_erode_xy[OF x])
  with i le have e: "erode msk width height ! (y * width + x) = False" by (simp add: js_get_def)
  have "js_get (dilate msk width height) (y * width + x) = js_get msk (y * width + x)"
    using N by (simp add: js_get_dilate_xy[OF x])
  with i ld have d: "dilate msk width height ! (y * width + x) = msk ! (y * width + x)"
    by (simp add: js_get_def)
  from e d le ld show ?thesis by (simp add: input_mask_erode_run input_mask_dilate_run)
qed

text \<open>C10 at the all-true 3x3 mask and its border pixel \<open>(2, 1)\<close>.\<close>

theorem erode_dilate_border_witness:
  "length [True, True, True, True, True, True, True, True, True] = 3 * 3
   \<and> on_border 3 3 2 1
   \<and> erode [True, True, True, True, True, True, True, True, True] 3 3 ! (1 * 3 + 2) = False
   \<and> dilate [True, True, True, True, True, True, True, True, True] 3 3 ! (1 * 3 + 2) = True"
proof -
  have l: "length [True, True, True, True, True, True, True, True, True] = 3 * 3" by simp
  have b: "on_border 3 3 2 1" by (simp add: on_border_def)
  from erode_dilate_border[OF l b] l b show ?thesis by simp
qed

lemma count_le:
  assumes "\<And>i. i < n \<Longrightarrow> P i \<Longrightarrow> Q i"
  shows "card {i. i < n \<and> P i} \<le> card {i. i < (n::nat) \<and> Q i}"
  by (rule card_mono) (use assms in auto)

text \<open>
  C7, as amended.  For a mask of \<open>width * height\<close> entries, \<open>erode (dilate mask)\<close> has
  at least as many true pixels as the mask has at distance two or more from every image
  edge, and \<open>dilate (erode mask)\<close> has no more true pixels than the mask.
\<close>

theorem close_open_counts:
  assumes L: "length msk = width * height"
  shows "count_inside 2 msk width height \<le> count_true (erode (dilate msk width height) width height)
       \<and> count_true (dilate (erode msk width height) width height) \<le> count_true msk"
proof -
  have l1: "length (erode (dilate msk width height) width height) = width * height"
    using L by (simp add: length_erode length_dilate)
  have l2: "length (dilate (erode msk width height) width height) = width * height"
    using L by (simp add: length_erode length_dilate)
  have "card {i. i < width * height \<and> (js_get msk i \<and> inside 2 width height (i mod width) (i div width))}
      \<le> card {i. i < width * height \<and> js_get (erode (dilate msk width height) width height) i}"
    by (rule count_le) (simp add: close_pointwise)
  then have A: "count_inside 2 msk width height \<le> count_true (erode (dilate msk width height) width height)"
    by (simp add: count_inside_card count_true_card l1)
  have "card {i. i < width * height \<and> js_get (dilate (erode msk width height) width height) i}
      \<le> card {i. i < width * height \<and> js_get msk i}"
    by (rule count_le) (simp add: open_pointwise)
  then have B: "count_true (dilate (erode msk width height) width height) \<le> count_true msk"
    by (simp add: count_true_card l2 L)
  from A B show ?thesis ..
qed


text \<open>
  C7 as stated, with the interior being the pixels off the 1-pixel border, fails at the
  3x3 mask whose only true pixel is the centre: \<open>dilate\<close> copies the false border,
  \<open>erode\<close> then clears the centre, and no true pixel is left.
\<close>

theorem close_interior_counterexample:
  "length mask3_centre = 3 * 3 \<and>
   \<not> count_inside 1 mask3_centre 3 3 \<le> count_true (erode (dilate mask3_centre 3 3) 3 3)"
  by code_simp

text \<open>C7 as amended, at the 5x5 mask whose only true pixel is the centre.\<close>

theorem close_open_counts_witness:
  "length mask5_centre = 5 * 5
   \<and> count_inside 2 mask5_centre 5 5 \<le> count_true (erode (dilate mask5_centre 5 5) 5 5)
   \<and> count_true (dilate (erode mask5_centre 5 5) 5 5) \<le> count_true mask5_centre"
proof -
  have l: "length mask5_centre = 5 * 5" by (simp add: mask5_centre_def)
  from close_open_counts[OF l] l show ?thesis by blast
qed

text \<open>
  C2, as amended.  The raw mask of the Skin Tone Detector is cleaned by one dilation, one
  erosion, two dilations and one erosion, in this order, and the raw mask of the Clothing
  Detector by the same five passes.
\<close>

theorem cleanup_sequence:
  "detectSkinTones data width height =
     apply_ops [Dilate, Erode, Dilate, Dilate, Erode] (rawSkinMask data width height) width height
   \<and> detectClothing data width height =
     apply_ops [Dilate, Erode, Dilate, Dilate, Erode] (rawClothingMask data width height) width height"
  by (simp add: detectSkinTones_def detectClothing_def apply_ops_def)

text \<open>
  C2 as stated (two dilations, one erosion, two dilations, one erosion) fails on the 5x5
  image whose only skin-coloured pixel is \<open>(1, 1)\<close>: the five passes of the code clear
  the mask, the six passes of the claim leave the centre pixel set.
\<close>

theorem cleanup_sequence_counterexample:
  "detectSkinTones skin_dot_image 5 5 \<noteq>
   apply_ops [Dilate, Dilate, Erode, Dilate, Dilate, Erode] (rawSkinMask skin_dot_image 5 5) 5 5"
proof -
  have "centre5 \<noteq> replicate 25 False" by code_simp
  then show ?thesis
    by (simp add: detectSkinTones_def apply_ops_def rawSkinMask_dot dot5_steps)
qed

text \<open>
  C6.  Every pixel \<open>(x, y)\<close> of the image that lies within 5 pixels of an image edge is
  true in the mask that \<open>refineCompositeMask\<close> returns, whatever the three input masks
  and the buffer are, and so in the mask of the whole pipeline.
\<close>

theorem border_forced_true:
  assumes x: "x < width" and y: "y < height" and e: "near_edge 5 width height x y"
  shows "refineCompositeMask initialMask skinMask clothingMask imageData width height
           ! (y * width + x) = True
       \<and> improvedBackgroundDetection imageData width height ! (y * width + x) = True"
proof -
  from idx_in_range[OF x y] have i: "y * width + x < width * height" .
  from e x have e': "near_edge 5 width height ((y * width + x) mod width) ((y * width + x) div width)"
    by simp
  have "refineCompositeMask im sm cm imageData width height ! (y * width + x) = True" for im sm cm
    using near_edge_refineCompositeMask[OF i e', of im sm cm imageData] i
    by (simp add: js_get_def length_refineCompositeMask)
  then show ?thesis by (simp add: improvedBackgroundDetection_def Let_def)
qed

text \<open>C6 at the pixel \<open>(4, 6)\<close> of an 11x11 image, with empty masks and buffer.\<close>

theorem border_forced_true_witness:
  "(4::nat) < 11 \<and> (6::nat) < 11 \<and> near_edge 5 11 11 4 6
   \<and> refineCompositeMask [] [] [] [] 11 11 ! (6 * 11 + 4) = True
   \<and> improvedBackgroundDetection [] 11 11 ! (6 * 11 + 4) = True"
proof -
  have a: "(4::nat) < 11" and b: "(6::nat) < 11" and c: "near_edge 5 11 11 4 6"
    by (simp_all add: near_edge_def)
  from border_forced_true[OF a b c, of "[]" "[]" "[]" "[]"] a b c show ?thesis by blast
qed

text \<open>
  C1 fails on the code.  With the single seed \<open>(0, 0)\<close> the flood fill of a 3x3 mask
  marks all nine pixels, among them the centre, which the initial mask does not mark and
  which therefore no path of marked pixels reaches.  With the centre as the only marked
  pixel there is no seed, and the centre stays in the region although nothing connects it
  to the border.
\<close>

theorem floodFill_floods_foreground:
  "length corner3 = 3 * 3
   \<and> floodFillBackground corner3 3 3 = replicate 9 True
   \<and> \<not> corner3 ! 4
   \<and> floodFillBackground mask3_centre 3 3 = mask3_centre
   \<and> floodFill_seeds mask3_centre 3 3 = []"
  by code_simp

section \<open>Claims about the Dominant Color Clusterer\<close>

text \<open>
  C4 describes the clusterer that the comment of the code announces: "Update the
  representative color (weighted average)".  The code rounds every channel of the
  representative with \<open>Math.round\<close> at each insertion and carries the rounded value
  into the next average, so the representative is not the weighted average of the
  members, and both halves of the claim fail.  The three colours of \<open>split_colors\<close>
  are pairwise nearer than 20, but the third is farther than 20 from the rounded
  representative \<open>(101, 101, 101)\<close> of the first two (their average is
  \<open>(100.5, 100.5, 100.5)\<close>), and the clusterer returns two colours.  On
  \<open>stuck_colors\<close>, thirty samples \<open>(0, 0, 0)\<close> followed by thirty samples
  \<open>(14, 14, 14)\<close>, all pairwise nearer than 20, there is one cluster, and its
  representative is \<open>(0, 0, 0)\<close>: each \<open>14 / n\<close> with \<open>n > 28\<close> rounds to 0.  The
  weighted average of every channel is 7.
\<close>

theorem rounded_representative_drifts:
  "pairwise_within split_colors
   \<and> findDominantColors (map Some split_colors) = [rgba 101 101 101 255, rgba 80 84 69 255]
   \<and> pairwise_within stuck_colors
   \<and> findDominantColors (map Some stuck_colors) = [rgba 0 0 0 255]
   \<and> channel_average red stuck_colors = 7
   \<and> channel_average green stuck_colors = 7
   \<and> channel_average blue stuck_colors = 7"
  using split_colors_pairwise split_colors_groups stuck_colors_pairwise stuck_colors_groups
    stuck_colors_average
  by simp

section \<open>Claims about the whole pipeline\<close>

text \<open>
  C3, as amended.  For a uniform image of any size whose colour (four bytes) has alpha
  above 0, is not a skin tone by the rule of the Skin Tone Detector and has brightness
  \<open>(r + g + b) / 3\<close> at most 180, the mask of the pipeline is true at every pixel and
  the output buffer is the input with every alpha byte 0.
\<close>

theorem uniform_image_removed:
  assumes "r \<le> 255" "g \<le> 255" "b \<le> 255" "a \<le> 255"
    and "0 < a" and "\<not> skin_rule (int r) (int g) (int b)"
    and "real_of_int (int r + int g + int b) / 3 \<le> 180"
  shows "improvedBackgroundDetection (buffer_of (\<lambda>i. (r, g, b, a)) (width * height)) width height
           = replicate (width * height) True
       \<and> removeBackground (buffer_of (\<lambda>i. (r, g, b, a)) (width * height)) width height
           = buffer_of (\<lambda>i. (r, g, b, 0)) (width * height)"
  unfolding removeBackground_def uniform_mask[OF assms] by (simp add: apply_all_true)

text \<open>C3 as amended, at the opaque blue 11x11 image.\<close>

theorem uniform_image_removed_witness:
  "(0::nat) \<le> 255 \<and> (255::nat) \<le> 255
   \<and> (0::nat) < 255 \<and> \<not> skin_rule (int 0) (int 0) (int 255)
   \<and> real_of_int (int 0 + int 0 + int 255) / 3 \<le> 180
   \<and> improvedBackgroundDetection (buffer_of (\<lambda>i. (0, 0, 255, 255)) (11 * 11)) 11 11
        = replicate (11 * 11) True
   \<and> removeBackground (buffer_of (\<lambda>i. (0, 0, 255, 255)) (11 * 11)) 11 11
        = buffer_of (\<lambda>i. (0, 0, 255, 0)) (11 * 11)"
proof -
  have a: "(0::nat) < 255" by simp
  have s: "\<not> skin_rule (int 0) (int 0) (int 255)" using blue_not_skin by simp
  have d: "real_of_int (int 0 + int 0 + int 255) / 3 \<le> 180" by simp
  from uniform_image_removed[OF _ _ _ _ a s d, of 11 11] a s d show ?thesis by simp
qed

text \<open>
  C3 as stated fails on the uniform 11x11 image of the skin tone \<open>(224, 172, 135)\<close>,
  where \<open>11 = 2 * edgeDepth + 1\<close>: the skin mask protects the pixels two or more away
  from the edges, the final mask is false at the centre pixel 60, and the alpha byte of
  that pixel stays 255.
\<close>

theorem uniform_skin_counterexample:
  "2 * edgeDepth 11 11 + 1 \<le> 11
   \<and> improvedBackgroundDetection skin_image 11 11 ! 60 = False
   \<and> removeBackground skin_image 11 11 ! 243 = 255"
proof -
  have e: "2 * edgeDepth 11 11 + 1 \<le> 11" by (simp add: edgeDepth_def fl_eval)
  have m: "improvedBackgroundDetection skin_image 11 11 ! 60 = False"
    using skin_image_kept by (simp add: js_get_def length_improvedBackgroundDetection)
  have "skin_image ! (4 * 60 + 3) = [224, 172, 135, 255] ! 3"
    unfolding skin_image_def by (subst buffer_of_nth) simp_all
  then have "removeBackground skin_image 11 11 ! 243 = 255"
    using skin_image_kept
    by (simp add: removeBackground_def applyBackgroundMask_nth skin_image_def length_buffer_of)
  with e m show ?thesis by blast
qed

text \<open>
  C5 as stated ends with "a no-op removal".  On the 11x11 image whose only opaque pixel is
  the centre, no edge sample is valid and the initial mask is all-false, yet the
  compositor marks every pixel within 10 pixels of an edge, and the removal clears the
  alpha byte of the centre pixel.
\<close>

theorem no_signal_removal_counterexample:
  "valid_colors (sampleEdgesOnly hole_image 11 11) = []
   \<and> createInitialBackgroundMask hole_image 11 11
        (findDominantColors (sampleEdgesOnly hole_image 11 11)) = replicate (11 * 11) False
   \<and> hole_image ! 243 = 255
   \<and> removeBackground hole_image 11 11 ! 243 = 0"
proof -
  have dom: "findDominantColors (sampleEdgesOnly hole_image 11 11) = []"
    by (simp add: findDominantColors_def hole_no_valid_sample)
  have ini: "createInitialBackgroundMask hole_image 11 11 [] = replicate (11 * 11) False"
    by (simp add: createInitialBackgroundMask_def)
  have "hole_image ! (4 * 60 + 3) = [0, 0, 255, 255] ! 3"
    unfolding hole_image_def by (subst buffer_of_nth) simp_all
  then have h: "hole_image ! 243 = 255" by simp
  have "removeBackground hole_image 11 11 ! 243 = 0"
    unfolding removeBackground_def hole_mask
    by (simp add: applyBackgroundMask_nth hole_image_def length_buffer_of js_get_replicate)
  with h dom ini hole_no_valid_sample show ?thesis by simp
qed

text \<open>
  C5, as amended.  When no sample is valid (each is missing or has alpha 0), the clusterer
  returns the empty list, and with the empty list the initializer returns the all-false
  mask of \<open>width * height\<close> entries, for every buffer.  Both are total functions.
\<close>

theorem no_background_signal:
  assumes "\<forall>s\<in>set sampledColors. (case s of None \<Rightarrow> True | Some c \<Rightarrow> alpha c \<le> 0)"
  shows "findDominantColors sampledColors = []
       \<and> createInitialBackgroundMask data width height (findDominantColors sampledColors)
           = replicate (width * height) False
       \<and> createInitialBackgroundMask data width height [] = replicate (width * height) False"
  using valid_colors_none[OF assms]
  by (simp add: findDominantColors_def createInitialBackgroundMask_def)

text \<open>C5 as amended, at a missing sample and a fully transparent one.\<close>

theorem no_background_signal_witness:
  "alpha (rgba 10 20 30 0) \<le> 0
   \<and> findDominantColors [None, Some (rgba 10 20 30 0)] = []
   \<and> createInitialBackgroundMask [10, 20, 30, 255] 1 1
        (findDominantColors [None, Some (rgba 10 20 30 0)]) = replicate (1 * 1) False"
proof -
  have a: "\<forall>s\<in>set [None, Some (rgba 10 20 30 0)]. (case s of None \<Rightarrow> True | Some c \<Rightarrow> alpha c \<le> 0)"
    by (simp add: rgba_def)
  from no_background_signal[OF a, of "[10, 20, 30, 255]" 1 1] show ?thesis
    by (simp add: rgba_def)
qed

section \<open>Claims about the output buffer\<close>

text \<open>
  C8.  The output buffer of the automatic removal has the length of the input buffer, it
  agrees with the input at every red, green and blue byte, and each of its alpha bytes is
  the input's or 0.  The same frame holds for the first version of the removal: for
  \<open>applyMaskToImage\<close> with any mask and for \<open>applyMaskToImage\<close> followed by
  \<open>postProcessResult\<close>; and it holds for the remove mode of the brush.
\<close>

theorem removal_keeps_rgb:
  "length (removeBackground data width height) = length data
   \<and> (\<forall>j < length data. j mod 4 \<noteq> 3 \<longrightarrow> removeBackground data width height ! j = data ! j)
   \<and> (\<forall>j < length data. removeBackground data width height ! j = data ! j
                          \<or> removeBackground data width height ! j = 0)
   \<and> length (applyMaskToImage msk data width height) = length data
   \<and> (\<forall>j < length data. j mod 4 \<noteq> 3 \<longrightarrow> applyMaskToImage msk data width height ! j = data ! j)
   \<and> length (removeBackgroundPro_apply msk data width height) = length data
   \<and> (\<forall>j < length data. j mod 4 \<noteq> 3 \<longrightarrow>
         removeBackgroundPro_apply msk data width height ! j = data ! j)
   \<and> length (brushRemove maskData data) = length data
   \<and> (\<forall>j < length data. j mod 4 \<noteq> 3 \<longrightarrow> brushRemove maskData data ! j = data ! j)"
proof -
  have "alpha_only data (removeBackgroundPro_apply msk data width height)"
    by (rule alpha_only_removeBackgroundPro_apply)
  then show ?thesis
    by (simp add: removeBackground_def applyBackgroundMask_length applyBackgroundMask_nth
        applyMaskToImage_rgb brushRemove_rgb alpha_only_def)
qed

text \<open>C8 at the one-pixel buffer \<open>[10, 20, 30, 255]\<close> and its green byte.\<close>

theorem removal_keeps_rgb_witness:
  "(1::nat) < length [10, 20, 30, 255::nat] \<and> (1::nat) mod 4 \<noteq> 3
   \<and> removeBackground [10, 20, 30, 255] 1 1 ! 1 = 20
   \<and> applyMaskToImage [0] [10, 20, 30, 255] 1 1 ! 1 = 20
   \<and> removeBackgroundPro_apply [0] [10, 20, 30, 255] 1 1 ! 1 = 20
   \<and> brushRemove [0, 0, 0, 0] [10, 20, 30, 255] ! 1 = 20
   \<and> length (removeBackground [10, 20, 30, 255] 1 1) = 4"
proof -
  have a: "(1::nat) < length [10, 20, 30, 255::nat]" and b: "(1::nat) mod 4 \<noteq> 3" by simp_all
  from removal_keeps_rgb[of "[10, 20, 30, 255]" 1 1 "[0]" "[0, 0, 0, 0]"] a b
  show ?thesis by simp
qed

section \<open>Claims about the Alpha Post-Processor\<close>

text \<open>
  C9.  Let the buffer have \<open>4 * width * height\<close> bytes and take the transparency mask
  that \<open>postProcessResult\<close> builds from it.  The region of a pixel is the set of pixels
  linked to it by steps between 4-adjacent pixels of equal transparency.  After
  \<open>removeSmallRegions\<close> the alpha byte of a pixel whose region has no pixel on the image
  border and has fewer than 200 pixels (transparent region) or 100 pixels (opaque region)
  is 255 if the pixel was transparent and 0 if it was opaque; the alpha byte of every
  other pixel is unchanged, and so are all red, green and blue bytes and the length.
\<close>

theorem small_regions_flipped:
  assumes "length data = 4 * (width * height)" and "i < width * height"
  shows "removeSmallRegions (transparentMaskOf data width height) data width height ! (i * 4 + 3)
         = (if \<not> (\<exists>c. c \<in> region_of (transparentMaskOf data width height) width height i
                      \<and> on_border width height (c mod width) (c div width))
               \<and> card (region_of (transparentMaskOf data width height) width height i)
                   < (if data ! (i * 4 + 3) = 0 then 200 else 100)
            then (if data ! (i * 4 + 3) = 0 then 255 else 0)
            else data ! (i * 4 + 3))
       \<and> length (removeSmallRegions (transparentMaskOf data width height) data width height)
           = length data
       \<and> (\<forall>j<length data. j mod 4 \<noteq> 3 \<longrightarrow>
             removeSmallRegions (transparentMaskOf data width height) data width height ! j
               = data ! j)"
proof -
  note P = transparentMaskOf_props[OF assms(1)]
  note C = removeSmallRegions_correct[OF P(1) P(2) assms(1)]
  from C(3)[OF assms(2)] P(3)[OF assms(2)] C(1) C(2) show ?thesis
    by (simp add: flipped_alpha_def small_inner_region_def)
qed

text \<open>
  C9 at the 3x3 image whose only transparent pixel is the centre: its region is the
  centre alone, and the alpha byte of the centre becomes 255.
\<close>

theorem small_regions_flipped_witness:
  "length pinhole_image = 4 * (3 * 3) \<and> (4::nat) < 3 * 3
   \<and> removeSmallRegions (transparentMaskOf pinhole_image 3 3) pinhole_image 3 3 ! (4 * 4 + 3) = 255"
proof -
  have l: "length pinhole_image = 4 * (3 * 3)" by (simp add: pinhole_image_def length_buffer_of)
  have i: "(4::nat) < 3 * 3" by simp
  have a: "pinhole_image ! (4 * 4 + 3) = 0"
    using buffer_of_nth[of 4 9 3 "\<lambda>i. (1, 2, 3, if i = 4 then 0 else 255)"]
    by (simp add: pinhole_image_def)
  have b: "\<not> on_border 3 3 (4 mod 3) (4 div 3)" by (simp add: on_border_def)
  from small_regions_flipped[OF l i] l i show ?thesis
    unfolding pinhole_region using a b by simp
qed

end
